theory Spec2Isabelle
  imports Complex_Main "HOL-Library.Word"
begin

unbundle bit_operations_syntax

section \<open>Data of ff3.py\<close>

text \<open>
  A Python \<open>str\<close> is a sequence of Unicode code points; it is modelled as a list of
  natural numbers (the code points), so that alphabets of up to 65536 distinct
  characters exist, as the source allows. A \<open>bytes\<close> or \<open>bytearray\<close> value is a list
  of 8-bit words. Python integers are unbounded: \<open>int\<close>.
\<close>

type_synonym str = "nat list"
type_synonym byte = "8 word"
type_synonym bytes = "byte list"

definition lit :: "string \<Rightarrow> str" where
  "lit s = map of_char s"

text \<open>
  Every \<open>raise\<close> of the source is a \<open>ValueError\<close>; the reason names the message.
  \<open>NonHex\<close> is the \<open>ValueError\<close> of \<open>bytes.fromhex\<close>, \<open>SubstringNotFound\<close> the one of
  \<open>str.index\<close>, \<open>ByteRange\<close> the one of storing a value outside 0..255 into a
  \<open>bytearray\<close>. \<open>IndexError\<close> and \<open>OverflowError\<close> come from indexing and from
  \<open>int.to_bytes\<close>.
\<close>

datatype reason =
    KeyLength | MessageLength | TweakLength | NonHex
  | RadixTooSmall | AlphabetTooShort | AlphabetRadixConflict | RadixExceedsDefault
  | DuplicateCharacters | RadixTooLarge | SubstringNotFound | ByteRange

datatype error = ValueError reason | IndexError | OverflowError

definition DOMAIN_MIN :: int where "DOMAIN_MIN = 1000000"
definition MAX_RADIX :: int where "MAX_RADIX = 2 ^ 16"
definition NUM_ROUNDS :: nat where "NUM_ROUNDS = 8"
definition BLOCK_SIZE :: nat where "BLOCK_SIZE = 16"
definition TWEAK_LEN :: nat where "TWEAK_LEN = 8"
definition TWEAK_LEN_NEW :: nat where "TWEAK_LEN_NEW = 7"
definition HALF_TWEAK_LEN :: nat where "HALF_TWEAK_LEN = TWEAK_LEN div 2"

definition DEFAULT_ALPHABET :: str where
  "DEFAULT_ALPHABET = lit ''0123456789abcdefghijklmnopqrstuvwxyzABCDEFGHIJKLMNOPQRSTUVWXYZ''"

definition reverse_string :: "'a list \<Rightarrow> 'a list" where
  "reverse_string txt = rev txt"

section \<open>Python built-ins used by the source\<close>

text \<open>\<open>xs[i]\<close>: a negative index counts from the end; out of range raises.\<close>

definition getitem :: "'a list \<Rightarrow> int \<Rightarrow> error + 'a" where
  "getitem xs i =
     (if 0 \<le> i \<and> i < int (length xs) then Inr (xs ! nat i)
      else if i < 0 \<and> - int (length xs) \<le> i then Inr (xs ! nat (int (length xs) + i))
      else Inl IndexError)"

text \<open>\<open>alphabet.index(char)\<close>: the first position of the character, or \<open>ValueError\<close>.\<close>

fun str_index :: "str \<Rightarrow> nat \<Rightarrow> error + nat" where
  "str_index [] c = Inl (ValueError SubstringNotFound)"
| "str_index (x # xs) c =
     (if x = c then Inr 0
      else (case str_index xs c of Inl e \<Rightarrow> Inl e | Inr k \<Rightarrow> Inr (Suc k)))"

text \<open>\<open>str(alphabet)\<close> applied to a \<open>str\<close> returns it unchanged.\<close>

definition py_str :: "str \<Rightarrow> str" where
  "py_str s = s"

text \<open>\<open>int.from_bytes(S, byteorder='big')\<close> and \<open>int(b.hex(), 16)\<close> on non-empty \<open>b\<close>.\<close>

definition from_bytes :: "bytes \<Rightarrow> int" where
  "from_bytes S = foldl (\<lambda>acc b. acc * 256 + uint b) 0 S"

text \<open>\<open>n.to_bytes(k, 'big')\<close>: \<open>OverflowError\<close> when \<open>n\<close> is negative or needs more than \<open>k\<close> bytes.\<close>

primrec big_endian :: "nat \<Rightarrow> int \<Rightarrow> bytes" where
  "big_endian 0 n = []"
| "big_endian (Suc k) n = big_endian k (n div 256) @ [word_of_int n]"

definition to_bytes :: "int \<Rightarrow> nat \<Rightarrow> error + bytes" where
  "to_bytes n k = (if n < 0 \<or> 256 ^ k \<le> n then Inl OverflowError else Inr (big_endian k n))"

text \<open>
  \<open>bytes.fromhex(s)\<close>: ASCII whitespace between bytes is skipped; each byte is two
  hexadecimal digits, upper or lower case; anything else raises \<open>ValueError\<close>.
\<close>

definition is_space :: "nat \<Rightarrow> bool" where
  "is_space c = (c = 32 \<or> (9 \<le> c \<and> c \<le> 13))"

definition hex_digit :: "nat \<Rightarrow> nat option" where
  "hex_digit c =
     (if 48 \<le> c \<and> c \<le> 57 then Some (c - 48)
      else if 97 \<le> c \<and> c \<le> 102 then Some (c - 87)
      else if 65 \<le> c \<and> c \<le> 70 then Some (c - 55)
      else None)"

fun fromhex :: "str \<Rightarrow> error + bytes" where
  "fromhex [] = Inr []"
| "fromhex [c] = (if is_space c then Inr [] else Inl (ValueError NonHex))"
| "fromhex (c # d # cs) =
     (if is_space c then fromhex (d # cs)
      else (case (hex_digit c, hex_digit d) of
              (Some h, Some l) \<Rightarrow>
                (case fromhex cs of Inl e \<Rightarrow> Inl e
                 | Inr bs \<Rightarrow> Inr (word_of_nat (16 * h + l) # bs))
            | _ \<Rightarrow> Inl (ValueError NonHex)))"

section \<open>The numeral codec\<close>

text \<open>
  \<open>decode_int\<close>: the loop runs over the reversed string; \<open>power\<close> is
  \<open>strlen - (idx + 1)\<close>, which is never negative inside the loop.
\<close>

fun decode_loop :: "str \<Rightarrow> str \<Rightarrow> nat \<Rightarrow> int \<Rightarrow> nat \<Rightarrow> int \<Rightarrow> error + int" where
  "decode_loop [] alphabet strlen base idx num = Inr num"
| "decode_loop (char # cs) alphabet strlen base idx num =
     (let power = strlen - (idx + 1) in
      case str_index alphabet char of Inl e \<Rightarrow> Inl e
      | Inr k \<Rightarrow> decode_loop cs alphabet strlen base (idx + 1) (num + int k * base ^ power))"

definition decode_int :: "str \<Rightarrow> str \<Rightarrow> error + int" where
  "decode_int string alphabet =
     (let strlen = length string; base = int (length alphabet)
      in decode_loop (reverse_string string) alphabet strlen base 0 0)"

section \<open>Radix and alphabet validation\<close>

text \<open>
  The \<open>isinstance\<close> checks are the types of the arguments. \<open>alphabet_stage\<close> is the
  block \<open>if alphabet is None: ...\<close>; its result is the pair of the (possibly still
  undefined) radix and the now defined alphabet.
\<close>

definition alphabet_stage :: "int option \<Rightarrow> str option \<Rightarrow> error + (int option \<times> str)" where
  "alphabet_stage radix alphabet =
     (case alphabet of
        Some a \<Rightarrow> Inr (radix, a)
      | None \<Rightarrow>
          (let radix = (case radix of None \<Rightarrow> 10 | Some r \<Rightarrow> r) in
           if radix > int (length DEFAULT_ALPHABET) then Inl (ValueError RadixExceedsDefault)
           else Inr (Some radix, take (nat radix) DEFAULT_ALPHABET)))"

definition validate_radix_and_alphabet :: "int option \<Rightarrow> str option \<Rightarrow> error + (int \<times> str)" where
  "validate_radix_and_alphabet radix alphabet =
     (if (case radix of None \<Rightarrow> False | Some r \<Rightarrow> r < 2)
      then Inl (ValueError RadixTooSmall)
      else if (case alphabet of None \<Rightarrow> False | Some a \<Rightarrow> length a < 2)
      then Inl (ValueError AlphabetTooShort)
      else if (case (radix, alphabet) of (Some r, Some a) \<Rightarrow> int (length a) \<noteq> r | _ \<Rightarrow> False)
      then Inl (ValueError AlphabetRadixConflict)
      else (case alphabet_stage radix alphabet of Inl e \<Rightarrow> Inl e
            | Inr (radix, alphabet) \<Rightarrow>
                if length alphabet \<noteq> length (py_str alphabet)
                then Inl (ValueError DuplicateCharacters)
                else (let radix = (case radix of None \<Rightarrow> int (length alphabet) | Some r \<Rightarrow> r) in
                      if radix > MAX_RADIX then Inl (ValueError RadixTooLarge)
                      else Inr (radix, alphabet))))"

text \<open>
  \<open>minlen_and_maxlen\<close>: \<open>math.log\<close> and \<open>math.log2\<close> are read as the real logarithm
  (\<open>math.log(x, b)\<close> is \<open>ln x / ln b\<close>, which is \<open>log b x\<close>).
\<close>

definition minlen_and_maxlen :: "int \<Rightarrow> int \<times> int" where
  "minlen_and_maxlen radix =
     (let minLen = \<lceil>log (real_of_int radix) (real_of_int DOMAIN_MIN)\<rceil>;
          maxLen = 2 * \<lfloor>96 / log 2 (real_of_int radix)\<rfloor>
      in (minLen, maxLen))"

text \<open>
  \<open>encode_int_r\<close>: the \<open>while\<close> loop is entered after \<open>validate_radix_and_alphabet\<close>
  has returned, hence with \<open>2 \<le> base\<close>; the loop is stated for such a base.
\<close>

function encode_loop :: "int \<Rightarrow> int \<Rightarrow> str \<Rightarrow> str \<Rightarrow> error + (int \<times> str)" where
  "encode_loop n base alphabet x =
     (if 2 \<le> base \<and> n \<ge> base then
        (case getitem alphabet (n mod base) of Inl e \<Rightarrow> Inl e
         | Inr ch \<Rightarrow> encode_loop (n div base) base alphabet (x @ [ch]))
      else Inr (n, x))"
  by pat_completeness auto
termination
proof (relation "measure (\<lambda>(n, base, alphabet, x). nat n)")
  show "wf (measure (\<lambda>(n, base, alphabet, x). nat n))"
    by simp
next
  fix n base :: int and alphabet x :: str and ch :: nat
  assume "2 \<le> base \<and> base \<le> n"
  then have "n div base < n" and "0 < n"
    by (simp_all add: int_div_less_self)
  then show "((n div base, base, alphabet, x @ [ch]), (n, base, alphabet, x))
      \<in> measure (\<lambda>(n, base, alphabet, x). nat n)"
    by simp
qed

declare encode_loop.simps [simp del]

definition encode_int_r :: "int \<Rightarrow> int \<Rightarrow> int \<Rightarrow> str option \<Rightarrow> error + str" where
  "encode_int_r n base length' alphabet =
     (case validate_radix_and_alphabet (Some base) alphabet of Inl e \<Rightarrow> Inl e
      | Inr (base, alphabet) \<Rightarrow>
      (case encode_loop n base alphabet [] of Inl e \<Rightarrow> Inl e
       | Inr (n, x) \<Rightarrow>
       (case getitem alphabet n of Inl e \<Rightarrow> Inl e
        | Inr ch \<Rightarrow>
        (let x = x @ [ch] in
         if int (length x) < length' then
           (case getitem alphabet 0 of Inl e \<Rightarrow> Inl e
            | Inr pad \<Rightarrow> Inr (x @ replicate (nat (length' - int (length x))) pad))
         else Inr x))))"

section \<open>The cipher\<close>

text \<open>
  The AES primitive is a parameter: \<open>ciph key block\<close> stands for
  \<open>AES.new(key, AES.MODE_ECB).encrypt(block)\<close>. The field \<open>self_aesCipher\<close> holds the
  key the AES object was made with (the byte-reversed key).
\<close>

type_synonym aes_ecb = "bytes \<Rightarrow> bytes \<Rightarrow> bytes"

record FF3Cipher =
  self_tweak :: str
  self_radix :: int
  self_alphabet :: str
  self_minLen :: int
  self_maxLen :: int
  self_aesCipher :: bytes

definition FF3Cipher_init :: "str \<Rightarrow> str \<Rightarrow> int option \<Rightarrow> str option \<Rightarrow> error + FF3Cipher" where
  "FF3Cipher_init key tweak radix alphabet =
     (case validate_radix_and_alphabet radix alphabet of Inl e \<Rightarrow> Inl e
      | Inr (radix, alphabet) \<Rightarrow>
      (case fromhex key of Inl e \<Rightarrow> Inl e
       | Inr keybytes \<Rightarrow>
       (case minlen_and_maxlen radix of (minLen, maxLen) \<Rightarrow>
        (let klen = length keybytes in
         if klen \<notin> {16, 24, 32} then Inl (ValueError KeyLength)
         else Inr \<lparr>self_tweak = tweak, self_radix = radix, self_alphabet = alphabet,
                   self_minLen = minLen, self_maxLen = maxLen,
                   self_aesCipher = reverse_string keybytes\<rparr>))))"

definition calculateP :: "int \<Rightarrow> str \<Rightarrow> bytes \<Rightarrow> str \<Rightarrow> error + bytes" where
  "calculateP i alphabet W B =
     (let P = replicate BLOCK_SIZE (0 :: byte) in
      case getitem W 0 of Inl e \<Rightarrow> Inl e | Inr w0 \<Rightarrow>
      (case getitem W 1 of Inl e \<Rightarrow> Inl e | Inr w1 \<Rightarrow>
      (case getitem W 2 of Inl e \<Rightarrow> Inl e | Inr w2 \<Rightarrow>
      (case getitem W 3 of Inl e \<Rightarrow> Inl e | Inr w3 \<Rightarrow>
      (let p3 = uint w3 XOR i in
       if p3 < 0 \<or> 256 \<le> p3 then Inl (ValueError ByteRange)
       else
         (let P = P[0 := w0, 1 := w1, 2 := w2, 3 := word_of_int p3] in
          case decode_int B alphabet of Inl e \<Rightarrow> Inl e | Inr nB \<Rightarrow>
          (case to_bytes nB 12 of Inl e \<Rightarrow> Inl e | Inr BBytes \<Rightarrow>
             Inr (take (BLOCK_SIZE - length BBytes) P @ BBytes))))))))"

text \<open>
  The tweak split of \<open>encrypt_with_tweak\<close> (lines 182-195), which
  \<open>decrypt_with_tweak\<close> repeats word for word (lines 288-301). In the 7-byte branch
  the indices 3 and 6 are in range.
\<close>

definition split_tweak :: "bytes \<Rightarrow> error + (bytes \<times> bytes)" where
  "split_tweak tweakBytes =
     (if length tweakBytes = TWEAK_LEN then
        Inr (take HALF_TWEAK_LEN tweakBytes, drop HALF_TWEAK_LEN tweakBytes)
      else if length tweakBytes = TWEAK_LEN_NEW then
        (let Tl = take 4 tweakBytes;
             Tl = Tl[3 := (Tl ! 3) AND 0xF0]
         in case to_bytes (push_bit 4 (from_bytes (drop 4 tweakBytes))) 4 of Inl e \<Rightarrow> Inl e
            | Inr Tr \<Rightarrow>
                Inr (Tl, Tr[3 := word_of_int (push_bit 4 (uint (tweakBytes ! 6)) AND 0xF0)]))
      else Inl (ValueError TweakLength))"

text \<open>The body of one round of the \<open>for\<close> loop of \<open>encrypt_with_tweak\<close>, on the pair \<open>(A, B)\<close>.\<close>

definition encrypt_round ::
  "aes_ecb \<Rightarrow> FF3Cipher \<Rightarrow> bytes \<Rightarrow> bytes \<Rightarrow> nat \<Rightarrow> nat \<Rightarrow> int \<Rightarrow> int \<Rightarrow> nat \<Rightarrow> str \<times> str
     \<Rightarrow> error + (str \<times> str)" where
  "encrypt_round ciph self Tl Tr u v modU modV i AB =
     (case AB of (A, B) \<Rightarrow>
      (let m = (if i mod 2 = 0 then u else v);
           W = (if i mod 2 = 0 then Tr else Tl)
       in case calculateP (int i) (self_alphabet self) W B of Inl e \<Rightarrow> Inl e
          | Inr P \<Rightarrow>
          (let revP = reverse_string P;
               S = ciph (self_aesCipher self) revP;
               S = reverse_string S;
               y = from_bytes S
           in case decode_int A (self_alphabet self) of Inl e \<Rightarrow> Inl e
              | Inr c \<Rightarrow>
              (let c = c + y;
                   c = (if i mod 2 = 0 then c mod modU else c mod modV)
               in case encode_int_r c (self_radix self) (int m) (Some (self_alphabet self)) of
                    Inl e \<Rightarrow> Inl e
                  | Inr C \<Rightarrow> Inr (B, C)))))"

text \<open>The body of one round of the \<open>for\<close> loop of \<open>decrypt_with_tweak\<close>.\<close>

definition decrypt_round ::
  "aes_ecb \<Rightarrow> FF3Cipher \<Rightarrow> bytes \<Rightarrow> bytes \<Rightarrow> nat \<Rightarrow> nat \<Rightarrow> int \<Rightarrow> int \<Rightarrow> nat \<Rightarrow> str \<times> str
     \<Rightarrow> error + (str \<times> str)" where
  "decrypt_round ciph self Tl Tr u v modU modV i AB =
     (case AB of (A, B) \<Rightarrow>
      (let m = (if i mod 2 = 0 then u else v);
           W = (if i mod 2 = 0 then Tr else Tl)
       in case calculateP (int i) (self_alphabet self) W A of Inl e \<Rightarrow> Inl e
          | Inr P \<Rightarrow>
          (let revP = reverse_string P;
               S = ciph (self_aesCipher self) revP;
               S = reverse_string S;
               y = from_bytes S
           in case decode_int B (self_alphabet self) of Inl e \<Rightarrow> Inl e
              | Inr c \<Rightarrow>
              (let c = c - y;
                   c = (if i mod 2 = 0 then c mod modU else c mod modV)
               in case encode_int_r c (self_radix self) (int m) (Some (self_alphabet self)) of
                    Inl e \<Rightarrow> Inl e
                  | Inr C \<Rightarrow> Inr (C, A)))))"

text \<open>A \<open>for\<close> loop over round indices; the first error ends it.\<close>

primrec for_rounds ::
  "(nat \<Rightarrow> str \<times> str \<Rightarrow> error + (str \<times> str)) \<Rightarrow> nat list \<Rightarrow> str \<times> str \<Rightarrow> error + (str \<times> str)" where
  "for_rounds body [] AB = Inr AB"
| "for_rounds body (i # rest) AB =
     (case body i AB of Inl e \<Rightarrow> Inl e | Inr AB' \<Rightarrow> for_rounds body rest AB')"

text \<open>
  \<open>math.ceil(n / 2)\<close> is \<open>(n + 1) div 2\<close>: the float division is exact for every
  length that passes the bounds check.
\<close>

definition encrypt_with_tweak :: "aes_ecb \<Rightarrow> FF3Cipher \<Rightarrow> str \<Rightarrow> str \<Rightarrow> error + str" where
  "encrypt_with_tweak ciph self plaintext tweak =
     (case fromhex tweak of Inl e \<Rightarrow> Inl e
      | Inr tweakBytes \<Rightarrow>
      (let n = length plaintext in
       if int n < self_minLen self \<or> int n > self_maxLen self
       then Inl (ValueError MessageLength)
       else if length tweakBytes \<notin> {TWEAK_LEN, TWEAK_LEN_NEW}
       then Inl (ValueError TweakLength)
       else
         (let u = (n + 1) div 2;
              v = n - u;
              A = take u plaintext;
              B = drop u plaintext
          in case split_tweak tweakBytes of Inl e \<Rightarrow> Inl e
             | Inr (Tl, Tr) \<Rightarrow>
             (let modU = self_radix self ^ u;
                  modV = self_radix self ^ v
              in case for_rounds (encrypt_round ciph self Tl Tr u v modU modV)
                        [0..<NUM_ROUNDS] (A, B) of
                   Inl e \<Rightarrow> Inl e
                 | Inr (A, B) \<Rightarrow> Inr (A @ B)))))"

definition decrypt_with_tweak :: "aes_ecb \<Rightarrow> FF3Cipher \<Rightarrow> str \<Rightarrow> str \<Rightarrow> error + str" where
  "decrypt_with_tweak ciph self ciphertext tweak =
     (case fromhex tweak of Inl e \<Rightarrow> Inl e
      | Inr tweakBytes \<Rightarrow>
      (let n = length ciphertext in
       if int n < self_minLen self \<or> int n > self_maxLen self
       then Inl (ValueError MessageLength)
       else if length tweakBytes \<notin> {TWEAK_LEN, TWEAK_LEN_NEW}
       then Inl (ValueError TweakLength)
       else
         (let u = (n + 1) div 2;
              v = n - u;
              A = take u ciphertext;
              B = drop u ciphertext
          in case split_tweak tweakBytes of Inl e \<Rightarrow> Inl e
             | Inr (Tl, Tr) \<Rightarrow>
             (let modU = self_radix self ^ u;
                  modV = self_radix self ^ v
              in case for_rounds (decrypt_round ciph self Tl Tr u v modU modV)
                        (rev [0..<NUM_ROUNDS]) (A, B) of
                   Inl e \<Rightarrow> Inl e
                 | Inr (A, B) \<Rightarrow> Inr (A @ B)))))"

definition encrypt :: "aes_ecb \<Rightarrow> FF3Cipher \<Rightarrow> str \<Rightarrow> error + str" where
  "encrypt ciph self plaintext = encrypt_with_tweak ciph self plaintext (self_tweak self)"

definition decrypt :: "aes_ecb \<Rightarrow> FF3Cipher \<Rightarrow> str \<Rightarrow> error + str" where
  "decrypt ciph self ciphertext = decrypt_with_tweak ciph self ciphertext (self_tweak self)"

section \<open>Notions used to state the properties\<close>

text \<open>
  The digit value of a character: the position of its first occurrence in the
  alphabet, which is what \<open>alphabet.index\<close> returns where it returns.
\<close>

definition first_pos :: "str \<Rightarrow> nat \<Rightarrow> nat" where
  "first_pos alphabet c = length (takeWhile (\<lambda>x. x \<noteq> c) alphabet)"

text \<open>The value of a string read with its first character as the least significant digit.\<close>

definition num_of :: "str \<Rightarrow> str \<Rightarrow> int" where
  "num_of al s = horner_sum (\<lambda>c. int (first_pos al c)) (int (length al)) s"

text \<open>\<open>decode_int(encode_int_r(n, radix, length, alphabet), alphabet)\<close>.\<close>

definition decode_encoded :: "int \<Rightarrow> int \<Rightarrow> int \<Rightarrow> str \<Rightarrow> error + int" where
  "decode_encoded n radix length' alphabet =
     (case encode_int_r n radix length' (Some alphabet) of Inl e \<Rightarrow> Inl e
      | Inr s \<Rightarrow> decode_int s alphabet)"

text \<open>
  The state of the Feistel loop before round \<open>i\<close> of \<open>encrypt_with_tweak\<close> (and after
  round \<open>i\<close> of \<open>decrypt_with_tweak\<close>): both halves are over the alphabet, and
  their lengths are \<open>u\<close> and \<open>v\<close>, swapped in odd rounds.
\<close>

definition round_inv :: "str \<Rightarrow> nat \<Rightarrow> nat \<Rightarrow> nat \<Rightarrow> str \<times> str \<Rightarrow> bool" where
  "round_inv al u v i AB =
     (case AB of (A, B) \<Rightarrow>
        set A \<subseteq> set al \<and> set B \<subseteq> set al
        \<and> length A = (if i mod 2 = 0 then u else v)
        \<and> length B = (if i mod 2 = 0 then v else u))"

text \<open>What the rounds use of the cipher instance, the tweak halves and the split point.\<close>

definition round_params :: "FF3Cipher \<Rightarrow> bytes \<Rightarrow> bytes \<Rightarrow> nat \<Rightarrow> nat \<Rightarrow> int \<Rightarrow> int \<Rightarrow> bool" where
  "round_params c Tl Tr u v modU modV =
     (2 \<le> self_radix c \<and> self_radix c \<le> 65536
      \<and> int (length (self_alphabet c)) = self_radix c
      \<and> length Tl = 4 \<and> length Tr = 4 \<and> 0 < u \<and> 0 < v
      \<and> self_radix c ^ u \<le> 2 ^ 96 \<and> self_radix c ^ v \<le> 2 ^ 96
      \<and> modU = self_radix c ^ u \<and> modV = self_radix c ^ v)"

text \<open>
  The instance that \<open>FF3Cipher(key, tweak, radix)\<close> builds for the first entry of
  \<open>testVectors\<close> in ff3_test.py.
\<close>

definition testVector0_cipher :: FF3Cipher where
  "testVector0_cipher =
     \<lparr>self_tweak = lit ''D8E7920AFA330A73'', self_radix = 10, self_alphabet = lit ''0123456789'',
      self_minLen = 6, self_maxLen = 56,
      self_aesCipher = [0x94, 0x6A, 0xFC, 0x04, 0x6F, 0x6D, 0x03, 0x7F,
                        0x4F, 0xAA, 0x80, 0xD5, 0xD8, 0x59, 0x43, 0xEF]\<rparr>"

section \<open>Indexing and decoding\<close>

lemma str_index_in: "c \<in> set al \<Longrightarrow> str_index al c = Inr (first_pos al c)"
  by (induction al) (auto simp: first_pos_def)

lemma str_index_notin: "c \<notin> set al \<Longrightarrow> str_index al c = Inl (ValueError SubstringNotFound)"
  by (induction al) auto

lemma first_pos_less: "c \<in> set al \<Longrightarrow> first_pos al c < length al"
  unfolding first_pos_def by (induction al) auto

lemma nth_first_pos: "c \<in> set al \<Longrightarrow> al ! first_pos al c = c"
  unfolding first_pos_def by (induction al) auto

lemma first_pos_nth: "distinct al \<Longrightarrow> k < length al \<Longrightarrow> first_pos al (al ! k) = k"
proof (induction al arbitrary: k)
  case Nil
  then show ?case by simp
next
  case (Cons a al)
  then show ?case
    by (cases k) (auto simp: first_pos_def)
qed

lemma decode_loop_in:
  "set cs \<subseteq> set al \<Longrightarrow>
   decode_loop cs al (idx + length cs) base idx num =
     Inr (num + horner_sum (\<lambda>c. int (first_pos al c)) base (rev cs))"
proof (induction cs arbitrary: idx num)
  case Nil
  then show ?case by simp
next
  case (Cons c cs)
  from Cons.prems have c: "c \<in> set al" and cs: "set cs \<subseteq> set al"
    by simp_all
  have "decode_loop (c # cs) al (idx + length (c # cs)) base idx num =
        decode_loop cs al (Suc idx + length cs) base (Suc idx)
          (num + int (first_pos al c) * base ^ length cs)"
    by (simp add: str_index_in [OF c])
  also have "\<dots> = Inr (num + int (first_pos al c) * base ^ length cs
      + horner_sum (\<lambda>c. int (first_pos al c)) base (rev cs))"
    by (rule Cons.IH [OF cs])
  finally show ?case
    by (simp add: horner_sum_append algebra_simps)
qed

lemma decode_loop_notin:
  "\<not> set cs \<subseteq> set al \<Longrightarrow>
   decode_loop cs al strlen base idx num = Inl (ValueError SubstringNotFound)"
proof (induction cs arbitrary: idx num)
  case Nil
  then show ?case by simp
next
  case (Cons c cs)
  show ?case
  proof (cases "c \<in> set al")
    case True
    with Cons.prems have "\<not> set cs \<subseteq> set al" by simp
    then show ?thesis
      by (simp add: str_index_in [OF True] Cons.IH)
  next
    case False
    then show ?thesis
      by (simp add: str_index_notin)
  qed
qed

lemma decode_int_in:
  "set s \<subseteq> set al \<Longrightarrow>
   decode_int s al = Inr (horner_sum (\<lambda>c. int (first_pos al c)) (int (length al)) s)"
  using decode_loop_in [of "rev s" al 0 "int (length al)" 0]
  by (simp add: decode_int_def reverse_string_def)

lemma decode_int_notin:
  "\<not> set s \<subseteq> set al \<Longrightarrow> decode_int s al = Inl (ValueError SubstringNotFound)"
  by (simp add: decode_int_def reverse_string_def decode_loop_notin)

lemma getitem_nonneg: "0 \<le> i \<Longrightarrow> i < int (length xs) \<Longrightarrow> getitem xs i = Inr (xs ! nat i)"
  by (simp add: getitem_def)

lemma length_DEFAULT_ALPHABET: "length DEFAULT_ALPHABET = 62"
  by (simp add: DEFAULT_ALPHABET_def lit_def)

lemma validate_given:
  "2 \<le> r \<Longrightarrow> r \<le> 65536 \<Longrightarrow> int (length al) = r \<Longrightarrow>
   validate_radix_and_alphabet (Some r) (Some al) = Inr (r, al)"
  by (auto simp: validate_radix_and_alphabet_def alphabet_stage_def py_str_def MAX_RADIX_def)

lemma validate_Inr:
  "validate_radix_and_alphabet r a = Inr (b, al) \<Longrightarrow>
   2 \<le> b \<and> b \<le> 65536 \<and> int (length al) = b"
  by (auto simp: validate_radix_and_alphabet_def alphabet_stage_def py_str_def MAX_RADIX_def
      Let_def length_DEFAULT_ALPHABET split: if_splits option.splits)

lemma validate_never_duplicate:
  "validate_radix_and_alphabet r a \<noteq> Inl (ValueError DuplicateCharacters)"
  by (auto simp: validate_radix_and_alphabet_def alphabet_stage_def py_str_def MAX_RADIX_def
      Let_def split: if_splits option.splits)

lemma horner_sum_cong_set:
  "(\<And>x. x \<in> set xs \<Longrightarrow> f x = g x) \<Longrightarrow> horner_sum f a xs = horner_sum g a xs"
  by (induction xs) auto

lemma horner_sum_map: "horner_sum f a (map g xs) = horner_sum (\<lambda>x. f (g x)) a xs"
  by (induction xs) auto

lemma horner_sum_replicate_zero: "f z = 0 \<Longrightarrow> horner_sum f a (replicate k z) = 0"
  by (induction k) auto

lemma horner_sum_bounds:
  fixes b :: int
  assumes "\<And>x. x \<in> set xs \<Longrightarrow> 0 \<le> f x \<and> f x < b"
  shows "0 \<le> horner_sum f b xs \<and> horner_sum f b xs < b ^ length xs"
  using assms
proof (induction xs)
  case Nil
  then show ?case by simp
next
  case (Cons x xs)
  then have x: "0 \<le> f x" "f x < b" and IH: "0 \<le> horner_sum f b xs" "horner_sum f b xs < b ^ length xs"
    by auto
  from x have b: "0 < b" by linarith
  from IH(2) have "horner_sum f b xs + 1 \<le> b ^ length xs" by simp
  then have "b * (horner_sum f b xs + 1) \<le> b * b ^ length xs"
    using b by (simp only: mult_le_cancel_left_pos)
  then have "f x + b * horner_sum f b xs < b * b ^ length xs"
    using x by (simp add: algebra_simps)
  moreover have "0 \<le> f x + b * horner_sum f b xs"
    using x IH b by simp
  ultimately show ?case by simp
qed

lemma horner_sum_inj:
  fixes b :: int
  assumes "length xs = length ys"
    and "\<And>x. x \<in> set xs \<Longrightarrow> 0 \<le> f x \<and> f x < b"
    and "\<And>y. y \<in> set ys \<Longrightarrow> 0 \<le> f y \<and> f y < b"
    and "horner_sum f b xs = horner_sum f b ys"
  shows "map f xs = map f ys"
  using assms
proof (induction xs ys rule: list_induct2)
  case Nil
  then show ?case by simp
next
  case (Cons x xs y ys)
  have x: "0 \<le> f x" "f x < b" and y: "0 \<le> f y" "f y < b"
    using Cons.prems(1) [of x] Cons.prems(2) [of y] by simp_all
  have eq: "f x + b * horner_sum f b xs = f y + b * horner_sum f b ys"
    using Cons.prems(3) by simp
  have "(f x + b * horner_sum f b xs) mod b = f x"
    using x by simp
  moreover have "(f y + b * horner_sum f b ys) mod b = f y"
    using y by simp
  ultimately have h: "f x = f y"
    using eq by simp
  with eq have "b * horner_sum f b xs = b * horner_sum f b ys"
    by simp
  moreover have "b \<noteq> 0" using x by linarith
  ultimately have "horner_sum f b xs = horner_sum f b ys"
    by simp
  then have "map f xs = map f ys"
    using Cons.IH Cons.prems(1,2) by simp
  with h show ?case by simp
qed

lemma encode_loop_spec:
  "2 \<le> base \<Longrightarrow> int (length al) = base \<Longrightarrow> 0 \<le> n \<Longrightarrow>
   \<exists>n' ds. encode_loop n base al x = Inr (n', x @ map ((!) al) ds) \<and> 0 \<le> n' \<and> n' < base
      \<and> (\<forall>d\<in>set ds. d < length al)
      \<and> n = horner_sum int base ds + base ^ length ds * n'
      \<and> (ds = [] \<or> 1 \<le> n')"
proof (induction n base al x rule: encode_loop.induct)
  case (1 n base al x)
  show ?case
  proof (cases "base \<le> n")
    case False
    then have "encode_loop n base al x = Inr (n, x @ map ((!) al) [])"
      by (simp add: encode_loop.simps)
    then show ?thesis
      using False "1.prems" by (intro exI [of _ n] exI [of _ "[]"]) simp
  next
    case True
    let ?d = "nat (n mod base)"
    let ?ch = "al ! ?d"
    have base: "0 < base" using "1.prems" by simp
    have d: "0 \<le> n mod base" "n mod base < base"
      using base by simp_all
    have g: "getitem al (n mod base) = Inr ?ch"
      using d "1.prems" by (simp add: getitem_nonneg)
    have q: "0 \<le> n div base" "1 \<le> n div base"
      using True base "1.prems" by (simp_all add: pos_imp_zdiv_nonneg_iff int_one_le_iff_zero_less pos_imp_zdiv_pos_iff)
    have "\<exists>n' ds. encode_loop (n div base) base al (x @ [?ch]) = Inr (n', (x @ [?ch]) @ map ((!) al) ds)
        \<and> 0 \<le> n' \<and> n' < base \<and> (\<forall>d\<in>set ds. d < length al)
        \<and> n div base = horner_sum int base ds + base ^ length ds * n'
        \<and> (ds = [] \<or> 1 \<le> n')"
    proof (rule "1.IH" [OF _ g])
      show "2 \<le> base \<and> base \<le> n" using True "1.prems" by simp
    qed (use "1.prems" q in simp_all)
    then obtain n' ds where r: "encode_loop (n div base) base al (x @ [?ch]) = Inr (n', (x @ [?ch]) @ map ((!) al) ds)"
      and n': "0 \<le> n'" "n' < base" and ds: "\<forall>d\<in>set ds. d < length al"
      and v: "n div base = horner_sum int base ds + base ^ length ds * n'"
      and one: "ds = [] \<or> 1 \<le> n'"
      by blast
    have e: "encode_loop n base al x = Inr (n', x @ map ((!) al) (?d # ds))"
      using True "1.prems" g r by (subst encode_loop.simps) simp
    have dlt: "?d < length al"
      using d "1.prems" by linarith
    have "n = n mod base + base * (n div base)"
      by simp
    also have "\<dots> = horner_sum int base (?d # ds) + base ^ length (?d # ds) * n'"
      using d v by (simp add: algebra_simps)
    finally have v': "n = horner_sum int base (?d # ds) + base ^ length (?d # ds) * n'" .
    have one': "1 \<le> n'"
      using one v q by auto
    show ?thesis
      using e n' ds dlt v' one'
      by (intro exI [of _ n'] exI [of _ "?d # ds"]) simp
  qed
qed


lemma encode_int_r_spec:
  assumes r: "2 \<le> r" "r \<le> 65536" and al: "int (length al) = r" and n: "0 \<le> n"
  shows "\<exists>ds. encode_int_r n r m (Some al) = Inr (map ((!) al) ds)
      \<and> (\<forall>d\<in>set ds. d < length al)
      \<and> horner_sum int r ds = n
      \<and> (\<forall>k. 0 < k \<and> n < r ^ k \<and> m = int k \<longrightarrow> length ds = k)"
proof -
  from encode_loop_spec [OF r(1) al n, of "[]"]
  obtain n' ds0 where loop: "encode_loop n r al [] = Inr (n', map ((!) al) ds0)"
    and n': "0 \<le> n'" "n' < r" and ds0: "\<forall>d\<in>set ds0. d < length al"
    and v: "n = horner_sum int r ds0 + r ^ length ds0 * n'"
    and one: "ds0 = [] \<or> 1 \<le> n'"
    by auto
  let ?x = "ds0 @ [nat n']"
  let ?pad = "replicate (nat (m - int (length ?x))) (0::nat)"
  let ?ds = "if int (length ?x) < m then ?x @ ?pad else ?x"
  have g: "getitem al n' = Inr (al ! nat n')"
    using n' al by (simp add: getitem_nonneg)
  have g0: "getitem al 0 = Inr (al ! 0)"
    using r al by (simp add: getitem_nonneg)
  have res: "encode_int_r n r m (Some al) = Inr (map ((!) al) ?ds)"
    using loop g g0 by (simp add: encode_int_r_def validate_given [OF r al] Let_def map_replicate)
  have lt: "\<forall>d\<in>set ?ds. d < length al"
    using ds0 n' al r by auto
  have hx: "horner_sum int r ?x = n"
    using v n' by (simp add: horner_sum_append)
  have p0: "horner_sum int r ?pad = 0"
    by (rule horner_sum_replicate_zero) simp
  have "horner_sum int r (?x @ ?pad) = horner_sum int r ?x + r ^ length ?x * horner_sum int r ?pad"
    by (rule horner_sum_append)
  with hx p0 have "horner_sum int r (?x @ ?pad) = n"
    by simp
  with hx have val: "horner_sum int r ?ds = n"
    by (cases "int (length ?x) < m") (simp_all only: if_True if_False)
  have len: "length ?ds = k" if k: "0 < k" "n < r ^ k" "m = int k" for k
  proof -
    have "length ds0 < k"
    proof (cases "ds0 = []")
      case True
      then show ?thesis using k by simp
    next
      case False
      with one have "1 \<le> n'" by simp
      then have "r ^ length ds0 * 1 \<le> r ^ length ds0 * n'"
        using r by (intro mult_left_mono) simp_all
      moreover have "0 \<le> horner_sum int r ds0"
        using horner_sum_bounds [of ds0 int r] ds0 al by auto
      ultimately have "r ^ length ds0 \<le> n"
        using v by simp
      with k have "r ^ length ds0 < r ^ k" by simp
      then show ?thesis
        using r by (simp add: power_strict_increasing_iff)
    qed
    then show ?thesis using k by auto
  qed
  show ?thesis
    using res lt val len by (intro exI [of _ ?ds]) blast
qed

lemma decode_int_map_nth:
  assumes "distinct al" and "\<forall>d\<in>set ds. d < length al"
  shows "decode_int (map ((!) al) ds) al = Inr (horner_sum int (int (length al)) ds)"
proof -
  have sub: "set (map ((!) al) ds) \<subseteq> set al"
    using assms(2) by auto
  have "horner_sum (\<lambda>c. int (first_pos al c)) (int (length al)) (map ((!) al) ds)
      = horner_sum (\<lambda>d. int (first_pos al (al ! d))) (int (length al)) ds"
    by (simp add: horner_sum_map)
  also have "\<dots> = horner_sum int (int (length al)) ds"
    using assms by (intro horner_sum_cong_set) (simp add: first_pos_nth)
  finally show ?thesis
    using decode_int_in [OF sub] by simp
qed

lemma decode_encode:
  assumes "2 \<le> r" "r \<le> 65536" "int (length al) = r" "distinct al" "0 \<le> n"
  shows "\<exists>s. encode_int_r n r m (Some al) = Inr s \<and> decode_int s al = Inr n"
proof -
  from encode_int_r_spec [OF assms(1,2,3,5), of m]
  obtain ds where "encode_int_r n r m (Some al) = Inr (map ((!) al) ds)"
    "\<forall>d\<in>set ds. d < length al" "horner_sum int r ds = n"
    by blast
  then show ?thesis
    using decode_int_map_nth [OF assms(4), of ds] assms(3) by auto
qed


lemma num_of_bounds:
  assumes "set s \<subseteq> set al"
  shows "0 \<le> num_of al s \<and> num_of al s < int (length al) ^ length s"
  unfolding num_of_def
proof (rule horner_sum_bounds)
  fix c assume "c \<in> set s"
  with assms have "c \<in> set al" by auto
  then show "0 \<le> int (first_pos al c) \<and> int (first_pos al c) < int (length al)"
    by (simp add: first_pos_less)
qed

lemma encode_num_of:
  assumes r: "2 \<le> r" "r \<le> 65536" and al: "int (length al) = r"
    and s: "set s \<subseteq> set al" "s \<noteq> []"
  shows "encode_int_r (num_of al s) r (int (length s)) (Some al) = Inr s"
proof -
  have b: "0 \<le> num_of al s" "num_of al s < r ^ length s"
    using num_of_bounds [OF s(1)] al by simp_all
  from encode_int_r_spec [OF r al b(1), of "int (length s)"]
  obtain ds where e: "encode_int_r (num_of al s) r (int (length s)) (Some al) = Inr (map ((!) al) ds)"
    and lt: "\<forall>d\<in>set ds. d < length al" and v: "horner_sum int r ds = num_of al s"
    and len: "\<forall>k. 0 < k \<and> num_of al s < r ^ k \<and> int (length s) = int k \<longrightarrow> length ds = k"
    by blast
  let ?es = "map (first_pos al) s"
  have l: "length ds = length ?es"
    using len b s(2) by simp
  have ves: "horner_sum int r ?es = num_of al s"
    by (simp add: num_of_def horner_sum_map al)
  have "map int ds = map int ?es"
  proof (rule horner_sum_inj [OF l, of int r])
    show "0 \<le> int x \<and> int x < r" if "x \<in> set ds" for x
      using that lt al by auto
    show "0 \<le> int y \<and> int y < r" if "y \<in> set ?es" for y
      using that s(1) al first_pos_less by auto
    show "horner_sum int r ds = horner_sum int r ?es"
      using v ves by simp
  qed
  then have "ds = ?es"
    by (metis inj_map_eq_map inj_of_nat)
  then have "map ((!) al) ds = map (\<lambda>c. al ! first_pos al c) s"
    by simp
  also have "\<dots> = s"
    using s(1) by (intro map_idI) (auto simp: nth_first_pos)
  finally show ?thesis
    using e by simp
qed

section \<open>Message length bounds\<close>

lemma ceiling_log_le_iff:
  assumes "2 \<le> (r::int)"
  shows "(\<lceil>log (real_of_int r) (real_of_int DOMAIN_MIN)\<rceil> \<le> int m) = (DOMAIN_MIN \<le> r ^ m)"
proof -
  have r: "1 < real_of_int r" "0 < real_of_int r"
    using assms by simp_all
  have d: "0 < real_of_int DOMAIN_MIN"
    by (simp add: DOMAIN_MIN_def)
  have "(\<lceil>log (real_of_int r) (real_of_int DOMAIN_MIN)\<rceil> \<le> int m)
      = (log (real_of_int r) (real_of_int DOMAIN_MIN) \<le> real m)"
    by (simp add: ceiling_le_iff)
  also have "\<dots> = (real_of_int DOMAIN_MIN \<le> real_of_int r powr real m)"
    by (rule log_le_iff [OF r(1) d])
  also have "\<dots> = (real_of_int DOMAIN_MIN \<le> real_of_int (r ^ m))"
    by (simp add: powr_realpow [OF r(2)])
  also have "\<dots> = (DOMAIN_MIN \<le> r ^ m)"
    by (rule of_int_le_iff)
  finally show ?thesis .
qed

lemma le_floor_log2_iff:
  assumes "2 \<le> (r::int)"
  shows "(int k \<le> \<lfloor>96 / log 2 (real_of_int r)\<rfloor>) = (r ^ k \<le> 2 ^ 96)"
proof -
  have r: "1 < real_of_int r" "0 < real_of_int r" "0 \<le> real_of_int r"
    using assms by simp_all
  have L: "0 < log 2 (real_of_int r)"
    using r by (simp add: zero_less_log_cancel_iff)
  have p: "0 < real_of_int r ^ k"
    using r by simp
  have "(int k \<le> \<lfloor>96 / log 2 (real_of_int r)\<rfloor>) = (real k \<le> 96 / log 2 (real_of_int r))"
    by (simp add: le_floor_iff)
  also have "\<dots> = (real k * log 2 (real_of_int r) \<le> 96)"
    by (rule pos_le_divide_eq [OF L])
  also have "\<dots> = (log 2 (real_of_int r ^ k) \<le> 96)"
    by (simp add: log_nat_power [OF r(3)])
  also have "\<dots> = (real_of_int r ^ k \<le> 2 powr 96)"
    by (rule log_le_iff [OF _ p]) simp
  also have "\<dots> = (real_of_int (r ^ k) \<le> real_of_int (2 ^ 96))"
    by simp
  also have "\<dots> = (r ^ k \<le> 2 ^ 96)"
    by (rule of_int_le_iff)
  finally show ?thesis .
qed

lemma minlen_and_maxlen_eq:
  assumes r: "2 \<le> r"
    and m: "r ^ m < DOMAIN_MIN" "DOMAIN_MIN \<le> r ^ Suc m"
    and k: "r ^ k \<le> 2 ^ 96" "2 ^ 96 < r ^ Suc k"
  shows "minlen_and_maxlen r = (int (Suc m), 2 * int k)"
proof -
  let ?c = "\<lceil>log (real_of_int r) (real_of_int DOMAIN_MIN)\<rceil>"
  let ?f = "\<lfloor>96 / log 2 (real_of_int r)\<rfloor>"
  have "?c \<le> int (Suc m)"
    using m(2) by (simp only: ceiling_log_le_iff [OF r])
  moreover have "\<not> ?c \<le> int m"
    using m(1) by (simp only: ceiling_log_le_iff [OF r] not_le)
  ultimately have c: "?c = int (Suc m)" by simp
  have "int k \<le> ?f"
    using k(1) by (simp only: le_floor_log2_iff [OF r])
  moreover have "\<not> int (Suc k) \<le> ?f"
    using k(2) by (simp only: le_floor_log2_iff [OF r] not_le)
  ultimately have f: "?f = int k" by simp
  show ?thesis
    by (simp only: minlen_and_maxlen_def Let_def c f)
qed

lemma minlen_and_maxlen_bounds:
  assumes r: "2 \<le> r"
  shows "0 \<le> fst (minlen_and_maxlen r)"
    and "DOMAIN_MIN \<le> r ^ nat (fst (minlen_and_maxlen r))"
    and "0 \<le> snd (minlen_and_maxlen r)"
    and "even (snd (minlen_and_maxlen r))"
    and "r ^ nat (snd (minlen_and_maxlen r) div 2) \<le> 2 ^ 96"
proof -
  let ?c = "\<lceil>log (real_of_int r) (real_of_int DOMAIN_MIN)\<rceil>"
  let ?f = "\<lfloor>96 / log 2 (real_of_int r)\<rfloor>"
  have fs: "fst (minlen_and_maxlen r) = ?c" "snd (minlen_and_maxlen r) = 2 * ?f"
    by (simp_all add: minlen_and_maxlen_def Let_def)
  have "\<not> ?c \<le> int 0"
    by (simp only: ceiling_log_le_iff [OF r]) (simp add: DOMAIN_MIN_def)
  then have c0: "0 \<le> ?c" by simp
  then have "?c \<le> int (nat ?c)" by simp
  then have c1: "DOMAIN_MIN \<le> r ^ nat ?c"
    by (simp only: ceiling_log_le_iff [OF r])
  have "int 0 \<le> ?f"
    by (simp only: le_floor_log2_iff [OF r]) simp
  then have f0: "0 \<le> ?f" by simp
  then have "int (nat ?f) \<le> ?f" by simp
  then have f1: "r ^ nat ?f \<le> 2 ^ 96"
    by (simp only: le_floor_log2_iff [OF r])
  show "0 \<le> fst (minlen_and_maxlen r)" using c0 fs by simp
  show "DOMAIN_MIN \<le> r ^ nat (fst (minlen_and_maxlen r))" using c1 fs by simp
  show "0 \<le> snd (minlen_and_maxlen r)" using f0 fs by simp
  show "even (snd (minlen_and_maxlen r))" using fs by simp
  show "r ^ nat (snd (minlen_and_maxlen r) div 2) \<le> 2 ^ 96" using f1 fs by simp
qed

lemma minLen_ge_2:
  assumes r: "2 \<le> r" "r \<le> 65536"
  shows "2 \<le> fst (minlen_and_maxlen r)"
proof -
  let ?c = "\<lceil>log (real_of_int r) (real_of_int DOMAIN_MIN)\<rceil>"
  have "\<not> ?c \<le> int 1"
    using r by (simp only: ceiling_log_le_iff [OF r(1)]) (simp add: DOMAIN_MIN_def)
  then show ?thesis
    by (simp add: minlen_and_maxlen_def Let_def)
qed

lemma minlen_and_maxlen_2: "minlen_and_maxlen 2 = (20, 192)"
  using minlen_and_maxlen_eq [of 2 19 96] by (simp add: DOMAIN_MIN_def)

lemma minlen_and_maxlen_3: "minlen_and_maxlen 3 = (13, 120)"
  using minlen_and_maxlen_eq [of 3 12 60] by (simp add: DOMAIN_MIN_def)

lemma minlen_and_maxlen_10: "minlen_and_maxlen 10 = (6, 56)"
  using minlen_and_maxlen_eq [of 10 5 28] by (simp add: DOMAIN_MIN_def)

lemma minlen_and_maxlen_16: "minlen_and_maxlen 16 = (5, 48)"
  using minlen_and_maxlen_eq [of 16 4 24] by (simp add: DOMAIN_MIN_def)

lemma minlen_and_maxlen_26: "minlen_and_maxlen 26 = (5, 40)"
  using minlen_and_maxlen_eq [of 26 4 20] by (simp add: DOMAIN_MIN_def)

lemma minlen_and_maxlen_36: "minlen_and_maxlen 36 = (4, 36)"
  using minlen_and_maxlen_eq [of 36 3 18] by (simp add: DOMAIN_MIN_def)

lemma minlen_and_maxlen_62: "minlen_and_maxlen 62 = (4, 32)"
  using minlen_and_maxlen_eq [of 62 3 16] by (simp add: DOMAIN_MIN_def)

section \<open>Bytes and the round block\<close>

lemma foldl_bytes_bounds:
  "0 \<le> acc \<Longrightarrow>
   0 \<le> foldl (\<lambda>a b. a * 256 + uint (b::byte)) acc S
   \<and> foldl (\<lambda>a b. a * 256 + uint b) acc S < (acc + 1) * 256 ^ length S"
proof (induction S arbitrary: acc)
  case Nil
  then show ?case by simp
next
  case (Cons b S)
  have b: "0 \<le> uint b" "uint b < 256"
    using uint_bounded [of b] by simp_all
  let ?acc = "acc * 256 + uint b"
  have nonneg: "0 \<le> ?acc" using Cons.prems b by simp
  from Cons.IH [OF nonneg]
  have IH: "0 \<le> foldl (\<lambda>a b. a * 256 + uint b) ?acc S"
    "foldl (\<lambda>a b. a * 256 + uint b) ?acc S < (?acc + 1) * 256 ^ length S"
    by simp_all
  have "?acc + 1 \<le> (acc + 1) * 256" using b by simp
  then have "(?acc + 1) * 256 ^ length S \<le> ((acc + 1) * 256) * 256 ^ length S"
    by (intro mult_right_mono) simp_all
  with IH(2) have "foldl (\<lambda>a b. a * 256 + uint b) ?acc S < ((acc + 1) * 256) * 256 ^ length S"
    by (rule order_less_le_trans)
  moreover have "((acc + 1) * 256) * 256 ^ length S = (acc + 1) * 256 ^ length (b # S)"
    by simp
  ultimately have "foldl (\<lambda>a b. a * 256 + uint b) ?acc S < (acc + 1) * 256 ^ length (b # S)"
    by (simp only:)
  with IH(1) show ?case by (simp only: foldl_Cons simp_thms)
qed

lemma from_bytes_bounds: "0 \<le> from_bytes S \<and> from_bytes S < 256 ^ length S"
  using foldl_bytes_bounds [of 0 S] by (simp add: from_bytes_def)

lemma length_big_endian: "length (big_endian k n) = k"
  by (induction k arbitrary: n) auto

lemma to_bytes_ok: "0 \<le> n \<Longrightarrow> n < 256 ^ k \<Longrightarrow> to_bytes n k = Inr (big_endian k n)"
  by (simp add: to_bytes_def)

lemma split_tweak_ok:
  assumes "length tb = 7 \<or> length tb = 8"
  shows "\<exists>Tl Tr. split_tweak tb = Inr (Tl, Tr) \<and> length Tl = 4 \<and> length Tr = 4"
proof (cases "length tb = 8")
  case True
  then show ?thesis
    by (simp add: split_tweak_def TWEAK_LEN_def HALF_TWEAK_LEN_def)
next
  case False
  with assms have l: "length tb = 7" by simp
  let ?n = "from_bytes (drop 4 tb)"
  have "0 \<le> ?n" "?n < 256 ^ 3"
    using from_bytes_bounds [of "drop 4 tb"] l by simp_all
  then have "0 \<le> push_bit 4 ?n" "push_bit 4 ?n < 256 ^ 4"
    by (simp_all add: push_bit_eq_mult)
  then have "to_bytes (push_bit 4 ?n) 4 = Inr (big_endian 4 (push_bit 4 ?n))"
    by (rule to_bytes_ok)
  then show ?thesis
    using l by (simp add: split_tweak_def TWEAK_LEN_def TWEAK_LEN_NEW_def Let_def length_big_endian)
qed

lemma xor_byte_range:
  assumes "i < 8"
  shows "0 \<le> uint (w::byte) XOR int i \<and> uint w XOR int i < 256"
proof -
  have "uint w XOR int i < 2 ^ 8"
  proof (rule XOR_upper)
    show "0 \<le> uint w" by simp
    show "uint w < 2 ^ 8" using uint_bounded [of w] by simp
    show "int i < 2 ^ 8" using assms by simp
  qed
  then show ?thesis by simp
qed

lemma calculateP_ok:
  assumes "length W = 4" "i < 8" "set B \<subseteq> set al" "int (length al) ^ length B \<le> 2 ^ 96"
  shows "\<exists>P. calculateP (int i) al W B = Inr P"
proof -
  have g: "getitem W 0 = Inr (W ! 0)" "getitem W 1 = Inr (W ! 1)"
    "getitem W 2 = Inr (W ! 2)" "getitem W 3 = Inr (W ! 3)"
    using assms(1) by (simp_all add: getitem_def)
  have x: "\<not> (uint (W ! 3) XOR int i < 0 \<or> 256 \<le> uint (W ! 3) XOR int i)"
    using xor_byte_range [OF assms(2), of "W ! 3"] by simp
  have d: "decode_int B al = Inr (num_of al B)"
    using decode_int_in [OF assms(3)] by (simp add: num_of_def)
  have "0 \<le> num_of al B" "num_of al B < 256 ^ 12"
    using num_of_bounds [OF assms(3)] assms(4) by simp_all
  then have t: "to_bytes (num_of al B) 12 = Inr (big_endian 12 (num_of al B))"
    by (rule to_bytes_ok)
  show ?thesis
    unfolding calculateP_def Let_def g sum.case d t using x by simp
qed

lemma calculateP_bad:
  assumes "length W = 4" "i < 8" "\<not> set B \<subseteq> set al"
  shows "calculateP (int i) al W B = Inl (ValueError SubstringNotFound)"
proof -
  have g: "getitem W 0 = Inr (W ! 0)" "getitem W 1 = Inr (W ! 1)"
    "getitem W 2 = Inr (W ! 2)" "getitem W 3 = Inr (W ! 3)"
    using assms(1) by (simp_all add: getitem_def)
  have x: "\<not> (uint (W ! 3) XOR int i < 0 \<or> 256 \<le> uint (W ! 3) XOR int i)"
    using xor_byte_range [OF assms(2), of "W ! 3"] by simp
  show ?thesis
    unfolding calculateP_def Let_def g sum.case decode_int_notin [OF assms(3)] using x by simp
qed


lemma encode_int_r_fixed_length:
  assumes "2 \<le> r" "r \<le> 65536" "int (length al) = r" "0 \<le> n" "n < r ^ m" "0 < m"
  shows "\<exists>C. encode_int_r n r (int m) (Some al) = Inr C \<and> length C = m \<and> set C \<subseteq> set al"
proof -
  from encode_int_r_spec [OF assms(1-4), of "int m"]
  obtain ds where e: "encode_int_r n r (int m) (Some al) = Inr (map ((!) al) ds)"
    and lt: "\<forall>d\<in>set ds. d < length al"
    and len: "\<forall>k. 0 < k \<and> n < r ^ k \<and> int m = int k \<longrightarrow> length ds = k"
    by blast
  from len assms(5,6) have "length ds = m" by simp
  moreover from lt have "set (map ((!) al) ds) \<subseteq> set al" by auto
  ultimately show ?thesis using e by simp
qed

lemma round_modulus:
  assumes "round_params c Tl Tr u v modU modV"
  shows "(if (i::nat) mod 2 = 0 then modU else modV) = self_radix c ^ (if i mod 2 = 0 then u else v)"
    and "0 < self_radix c ^ (if i mod 2 = 0 then u else v)"
    and "0 < (if i mod 2 = 0 then u else v)"
    and "length (if i mod 2 = 0 then Tr else Tl) = 4"
  using assms by (simp_all add: round_params_def)

lemma encrypt_round_step:
  assumes p: "round_params c Tl Tr u v modU modV" and i: "i < 8"
    and inv: "round_inv (self_alphabet c) u v i (A, B)"
  shows "\<exists>C. encrypt_round ciph c Tl Tr u v modU modV i (A, B) = Inr (B, C)
      \<and> round_inv (self_alphabet c) u v (Suc i) (B, C)"
proof -
  let ?al = "self_alphabet c" and ?r = "self_radix c"
  let ?m = "if i mod 2 = 0 then u else v"
  let ?W = "if i mod 2 = 0 then Tr else Tl"
  have r: "2 \<le> ?r" "?r \<le> 65536" "int (length ?al) = ?r"
    using p by (simp_all add: round_params_def)
  have A: "set A \<subseteq> set ?al" "length A = ?m" and B: "set B \<subseteq> set ?al"
    and lB: "length B = (if i mod 2 = 0 then v else u)"
    using inv by (simp_all add: round_inv_def)
  have "?r ^ length B \<le> 2 ^ 96"
    using p lB by (simp add: round_params_def)
  then have "int (length ?al) ^ length B \<le> 2 ^ 96"
    using r by simp
  from calculateP_ok [OF round_modulus(4) [OF p] i B this]
  obtain P where P: "calculateP (int i) ?al ?W B = Inr P"
    by blast
  have d: "decode_int A ?al = Inr (num_of ?al A)"
    using decode_int_in [OF A(1)] by (simp add: num_of_def)
  let ?y = "from_bytes (reverse_string (ciph (self_aesCipher c) (reverse_string P)))"
  let ?c = "(num_of ?al A + ?y) mod ?r ^ ?m"
  have c: "0 \<le> ?c" "?c < ?r ^ ?m"
    using round_modulus(2) [OF p, of i] by simp_all
  from encode_int_r_fixed_length [OF r c round_modulus(3) [OF p]]
  obtain C where C: "encode_int_r ?c ?r (int ?m) (Some ?al) = Inr C"
    and lC: "length C = ?m" and sC: "set C \<subseteq> set ?al"
    by blast
  have m: "(if i mod 2 = 0 then (num_of ?al A + ?y) mod modU else (num_of ?al A + ?y) mod modV) = ?c"
    using round_modulus(1) [OF p, of i] by (simp split: if_splits)
  have "encrypt_round ciph c Tl Tr u v modU modV i (A, B) = Inr (B, C)"
    unfolding encrypt_round_def Let_def prod.case P sum.case d m C by simp
  moreover have "round_inv ?al u v (Suc i) (B, C)"
    using B lB lC sC by (auto simp: round_inv_def mod_Suc)
  ultimately show ?thesis by blast
qed

lemma decrypt_round_step:
  assumes p: "round_params c Tl Tr u v modU modV" and i: "i < 8"
    and inv: "round_inv (self_alphabet c) u v (Suc i) (A, B)"
  shows "\<exists>C. decrypt_round ciph c Tl Tr u v modU modV i (A, B) = Inr (C, A)
      \<and> round_inv (self_alphabet c) u v i (C, A)"
proof -
  let ?al = "self_alphabet c" and ?r = "self_radix c"
  let ?m = "if i mod 2 = 0 then u else v"
  let ?W = "if i mod 2 = 0 then Tr else Tl"
  have r: "2 \<le> ?r" "?r \<le> 65536" "int (length ?al) = ?r"
    using p by (simp_all add: round_params_def)
  have A: "set A \<subseteq> set ?al" and lA: "length A = (if i mod 2 = 0 then v else u)"
    and B: "set B \<subseteq> set ?al"
    using inv by (auto simp: round_inv_def mod_Suc split: if_splits)
  have "?r ^ length A \<le> 2 ^ 96"
    using p lA by (simp add: round_params_def)
  then have "int (length ?al) ^ length A \<le> 2 ^ 96"
    using r by simp
  from calculateP_ok [OF round_modulus(4) [OF p] i A this]
  obtain P where P: "calculateP (int i) ?al ?W A = Inr P"
    by blast
  have d: "decode_int B ?al = Inr (num_of ?al B)"
    using decode_int_in [OF B] by (simp add: num_of_def)
  let ?y = "from_bytes (reverse_string (ciph (self_aesCipher c) (reverse_string P)))"
  let ?c = "(num_of ?al B - ?y) mod ?r ^ ?m"
  have c: "0 \<le> ?c" "?c < ?r ^ ?m"
    using round_modulus(2) [OF p, of i] by simp_all
  from encode_int_r_fixed_length [OF r c round_modulus(3) [OF p]]
  obtain C where C: "encode_int_r ?c ?r (int ?m) (Some ?al) = Inr C"
    and lC: "length C = ?m" and sC: "set C \<subseteq> set ?al"
    by blast
  have m: "(if i mod 2 = 0 then (num_of ?al B - ?y) mod modU else (num_of ?al B - ?y) mod modV) = ?c"
    using round_modulus(1) [OF p, of i] by (simp split: if_splits)
  have "decrypt_round ciph c Tl Tr u v modU modV i (A, B) = Inr (C, A)"
    unfolding decrypt_round_def Let_def prod.case P sum.case d m C by simp
  moreover have "round_inv ?al u v i (C, A)"
    using A lA lC sC by (auto simp: round_inv_def)
  ultimately show ?thesis by blast
qed

lemma decrypt_encrypt_round:
  assumes p: "round_params c Tl Tr u v modU modV" and i: "i < 8"
    and dist: "distinct (self_alphabet c)"
    and inv: "round_inv (self_alphabet c) u v i (A, B)"
    and enc: "encrypt_round ciph c Tl Tr u v modU modV i (A, B) = Inr AB'"
  shows "decrypt_round ciph c Tl Tr u v modU modV i AB' = Inr (A, B)"
proof -
  let ?al = "self_alphabet c" and ?r = "self_radix c"
  let ?m = "if i mod 2 = 0 then u else v"
  let ?W = "if i mod 2 = 0 then Tr else Tl"
  have r: "2 \<le> ?r" "?r \<le> 65536" "int (length ?al) = ?r"
    using p by (simp_all add: round_params_def)
  have A: "set A \<subseteq> set ?al" "length A = ?m" and B: "set B \<subseteq> set ?al"
    and lB: "length B = (if i mod 2 = 0 then v else u)"
    using inv by (simp_all add: round_inv_def)
  have "?r ^ length B \<le> 2 ^ 96"
    using p lB by (simp add: round_params_def)
  then have "int (length ?al) ^ length B \<le> 2 ^ 96"
    using r by simp
  from calculateP_ok [OF round_modulus(4) [OF p] i B this]
  obtain P where P: "calculateP (int i) ?al ?W B = Inr P"
    by blast
  have d: "decode_int A ?al = Inr (num_of ?al A)"
    using decode_int_in [OF A(1)] by (simp add: num_of_def)
  let ?y = "from_bytes (reverse_string (ciph (self_aesCipher c) (reverse_string P)))"
  let ?c = "(num_of ?al A + ?y) mod ?r ^ ?m"
  have c: "0 \<le> ?c" "?c < ?r ^ ?m"
    using round_modulus(2) [OF p, of i] by simp_all
  from decode_encode [OF r dist c(1), of "int ?m"]
  obtain C where C: "encode_int_r ?c ?r (int ?m) (Some ?al) = Inr C"
    and dC: "decode_int C ?al = Inr ?c"
    by blast
  have m: "(if i mod 2 = 0 then (num_of ?al A + ?y) mod modU else (num_of ?al A + ?y) mod modV) = ?c"
    using round_modulus(1) [OF p, of i] by (simp split: if_splits)
  have "encrypt_round ciph c Tl Tr u v modU modV i (A, B) = Inr (B, C)"
    unfolding encrypt_round_def Let_def prod.case P sum.case d m C by simp
  with enc have AB': "AB' = (B, C)" by simp
  have nA: "0 \<le> num_of ?al A" "num_of ?al A < ?r ^ ?m"
    using num_of_bounds [OF A(1)] A(2) r by simp_all
  have "(?c - ?y) mod ?r ^ ?m = num_of ?al A mod ?r ^ ?m"
    by (simp add: mod_diff_left_eq)
  also have "\<dots> = num_of ?al A"
    using nA by simp
  finally have restored: "(?c - ?y) mod ?r ^ ?m = num_of ?al A" .
  have m': "(if i mod 2 = 0 then (?c - ?y) mod modU else (?c - ?y) mod modV) = num_of ?al A"
    using round_modulus(1) [OF p, of i] restored by (simp split: if_splits)
  have "A \<noteq> []"
    using A(2) round_modulus(3) [OF p, of i] by auto
  from encode_num_of [OF r A(1) this]
  have eA: "encode_int_r (num_of ?al A) ?r (int ?m) (Some ?al) = Inr A"
    using A(2) by simp
  have "decrypt_round ciph c Tl Tr u v modU modV i (B, C) = Inr (A, B)"
    unfolding decrypt_round_def Let_def prod.case P sum.case dC m' eA by simp
  with AB' show ?thesis by simp
qed


lemma for_rounds_append:
  "for_rounds body (xs @ ys) AB =
     (case for_rounds body xs AB of Inl e \<Rightarrow> Inl e | Inr AB' \<Rightarrow> for_rounds body ys AB')"
  by (induction xs arbitrary: AB) (auto split: sum.splits)

lemma encrypt_rounds_inv:
  assumes p: "round_params c Tl Tr u v modU modV"
  shows "j \<le> 8 \<Longrightarrow> i \<le> j \<Longrightarrow> round_inv (self_alphabet c) u v i AB \<Longrightarrow>
    \<exists>AB'. for_rounds (encrypt_round ciph c Tl Tr u v modU modV) [i..<j] AB = Inr AB'
       \<and> round_inv (self_alphabet c) u v j AB'"
proof (induction j)
  case 0
  then show ?case by simp
next
  case (Suc j)
  show ?case
  proof (cases "i = Suc j")
    case True
    with Suc.prems show ?thesis by simp
  next
    case False
    with Suc.prems have ij: "i \<le> j" and j: "j < 8" by simp_all
    from Suc.IH [OF _ ij Suc.prems(3)] j
    obtain A B where m: "for_rounds (encrypt_round ciph c Tl Tr u v modU modV) [i..<j] AB = Inr (A, B)"
      and inv: "round_inv (self_alphabet c) u v j (A, B)"
      by auto
    from encrypt_round_step [OF p j inv, of ciph]
    obtain C where "encrypt_round ciph c Tl Tr u v modU modV j (A, B) = Inr (B, C)"
      and "round_inv (self_alphabet c) u v (Suc j) (B, C)"
      by blast
    then show ?thesis
      using ij m by (simp add: for_rounds_append)
  qed
qed

lemma decrypt_rounds_inv:
  assumes p: "round_params c Tl Tr u v modU modV"
  shows "j \<le> 8 \<Longrightarrow> i \<le> j \<Longrightarrow> round_inv (self_alphabet c) u v j AB \<Longrightarrow>
    \<exists>AB'. for_rounds (decrypt_round ciph c Tl Tr u v modU modV) (rev [i..<j]) AB = Inr AB'
       \<and> round_inv (self_alphabet c) u v i AB'"
proof (induction j arbitrary: AB)
  case 0
  then show ?case by simp
next
  case (Suc j)
  show ?case
  proof (cases "i = Suc j")
    case True
    with Suc.prems show ?thesis by simp
  next
    case False
    with Suc.prems have ij: "i \<le> j" and j: "j < 8" by simp_all
    obtain A B where AB: "AB = (A, B)" by (cases AB)
    from decrypt_round_step [OF p j, of A B ciph] Suc.prems(3) AB
    obtain C where s: "decrypt_round ciph c Tl Tr u v modU modV j AB = Inr (C, A)"
      and inv: "round_inv (self_alphabet c) u v j (C, A)"
      by auto
    from Suc.IH [OF _ ij inv] j
    obtain AB' where "for_rounds (decrypt_round ciph c Tl Tr u v modU modV) (rev [i..<j]) (C, A) = Inr AB'"
      and "round_inv (self_alphabet c) u v i AB'"
      by auto
    then show ?thesis
      using ij s by simp
  qed
qed

lemma decrypt_encrypt_rounds:
  assumes p: "round_params c Tl Tr u v modU modV" and dist: "distinct (self_alphabet c)"
  shows "j \<le> 8 \<Longrightarrow> i \<le> j \<Longrightarrow> round_inv (self_alphabet c) u v i AB \<Longrightarrow>
    for_rounds (encrypt_round ciph c Tl Tr u v modU modV) [i..<j] AB = Inr AB' \<Longrightarrow>
    for_rounds (decrypt_round ciph c Tl Tr u v modU modV) (rev [i..<j]) AB' = Inr AB"
proof (induction j arbitrary: AB')
  case 0
  then show ?case by simp
next
  case (Suc j)
  show ?case
  proof (cases "i = Suc j")
    case True
    with Suc.prems show ?thesis by simp
  next
    case False
    with Suc.prems have ij: "i \<le> j" and j: "j < 8" and j': "j \<le> 8" by simp_all
    from encrypt_rounds_inv [OF p j' ij Suc.prems(3), of ciph]
    obtain A B where m: "for_rounds (encrypt_round ciph c Tl Tr u v modU modV) [i..<j] AB = Inr (A, B)"
      and inv: "round_inv (self_alphabet c) u v j (A, B)"
      by auto
    from Suc.prems(4) ij m
    have last: "encrypt_round ciph c Tl Tr u v modU modV j (A, B) = Inr AB'"
      by (simp add: for_rounds_append split: sum.splits)
    have "decrypt_round ciph c Tl Tr u v modU modV j AB' = Inr (A, B)"
      by (rule decrypt_encrypt_round [OF p j dist inv last])
    moreover have "for_rounds (decrypt_round ciph c Tl Tr u v modU modV) (rev [i..<j]) (A, B) = Inr AB"
      by (rule Suc.IH [OF j' ij Suc.prems(3) m])
    ultimately show ?thesis
      using ij by simp
  qed
qed

section \<open>The cipher instance and the Feistel loop\<close>

lemma init_facts:
  assumes "FF3Cipher_init key tweak radix alphabet = Inr c"
  shows "2 \<le> self_radix c" "self_radix c \<le> 65536"
    "int (length (self_alphabet c)) = self_radix c"
    "self_minLen c = fst (minlen_and_maxlen (self_radix c))"
    "self_maxLen c = snd (minlen_and_maxlen (self_radix c))"
    "self_tweak c = tweak"
proof -
  from assms obtain r al keybytes where v: "validate_radix_and_alphabet radix alphabet = Inr (r, al)"
    and c: "c = \<lparr>self_tweak = tweak, self_radix = r, self_alphabet = al,
                 self_minLen = fst (minlen_and_maxlen r), self_maxLen = snd (minlen_and_maxlen r),
                 self_aesCipher = reverse_string keybytes\<rparr>"
    by (auto simp: FF3Cipher_init_def Let_def split: sum.splits prod.splits if_splits)
  from validate_Inr [OF v] c
  show "2 \<le> self_radix c" "self_radix c \<le> 65536"
    "int (length (self_alphabet c)) = self_radix c"
    "self_minLen c = fst (minlen_and_maxlen (self_radix c))"
    "self_maxLen c = snd (minlen_and_maxlen (self_radix c))"
    "self_tweak c = tweak"
    by simp_all
qed

lemma init_tweak_independent:
  assumes "FF3Cipher_init key tweak radix alphabet = Inr c"
  shows "FF3Cipher_init key tweak' radix alphabet = Inr (c\<lparr>self_tweak := tweak'\<rparr>)"
  using assms
  by (auto simp: FF3Cipher_init_def Let_def split: sum.splits prod.splits if_splits)

lemma init_error_tweak_independent:
  assumes "FF3Cipher_init key tweak radix alphabet = Inl e"
  shows "FF3Cipher_init key tweak' radix alphabet = Inl e"
  using assms
  by (auto simp: FF3Cipher_init_def Let_def split: sum.splits prod.splits if_splits)

lemma split_point:
  assumes r: "2 \<le> r" "r \<le> 65536"
    and n: "fst (minlen_and_maxlen r) \<le> int n" "int n \<le> snd (minlen_and_maxlen r)"
  shows "0 < (n + 1) div 2" "0 < n - (n + 1) div 2"
    "r ^ ((n + 1) div 2) \<le> 2 ^ 96" "r ^ (n - (n + 1) div 2) \<le> 2 ^ 96"
proof -
  let ?k = "nat (snd (minlen_and_maxlen r) div 2)"
  have n2: "2 \<le> n"
    using minLen_ge_2 [OF r] n(1) by simp
  then show "0 < (n + 1) div 2" "0 < n - (n + 1) div 2"
    by simp_all
  have ev: "even (snd (minlen_and_maxlen r))" and nn: "0 \<le> snd (minlen_and_maxlen r)"
    and b: "r ^ ?k \<le> 2 ^ 96"
    using minlen_and_maxlen_bounds [OF r(1)] by simp_all
  have u: "(n + 1) div 2 \<le> ?k"
    using ev nn n(2) by (elim evenE) simp
  have r1: "1 \<le> r" using r by simp
  have "r ^ ((n + 1) div 2) \<le> r ^ ?k"
    using u r1 by (rule power_increasing)
  with b show "r ^ ((n + 1) div 2) \<le> 2 ^ 96" by simp
  have "n - (n + 1) div 2 \<le> ?k"
    using u by simp
  then have "r ^ (n - (n + 1) div 2) \<le> r ^ ?k"
    using r1 by (rule power_increasing)
  with b show "r ^ (n - (n + 1) div 2) \<le> 2 ^ 96" by simp
qed

lemma cipher_round_params:
  assumes init: "FF3Cipher_init key tweak radix alphabet = Inr c"
    and tw: "length Tl = 4" "length Tr = 4"
    and n: "self_minLen c \<le> int n" "int n \<le> self_maxLen c"
  shows "round_params c Tl Tr ((n + 1) div 2) (n - (n + 1) div 2)
      (self_radix c ^ ((n + 1) div 2)) (self_radix c ^ (n - (n + 1) div 2))"
proof -
  note f = init_facts [OF init]
  have n': "fst (minlen_and_maxlen (self_radix c)) \<le> int n"
    "int n \<le> snd (minlen_and_maxlen (self_radix c))"
    using n f(4,5) by simp_all
  show ?thesis
    unfolding round_params_def
    using f(1-3) tw split_point [OF f(1,2) n'] by simp
qed

lemma initial_round_inv:
  assumes "set s \<subseteq> set al"
  shows "round_inv al ((length s + 1) div 2) (length s - (length s + 1) div 2) 0
      (take ((length s + 1) div 2) s, drop ((length s + 1) div 2) s)"
  using assms by (auto simp: round_inv_def dest: in_set_takeD in_set_dropD)

lemma round_inv_even_state:
  assumes "round_inv al ((length s + 1) div 2) (length s - (length s + 1) div 2) i (A, B)"
    and "i mod 2 = 0"
  shows "length (A @ B) = length s" "set (A @ B) \<subseteq> set al"
    "take ((length s + 1) div 2) (A @ B) = A" "drop ((length s + 1) div 2) (A @ B) = B"
  using assms by (auto simp: round_inv_def)

lemma encrypt_with_tweak_rounds:
  assumes "fromhex tw = Inr tb" "length tb = 7 \<or> length tb = 8" "split_tweak tb = Inr (Tl, Tr)"
    and "self_minLen c \<le> int (length s)" "int (length s) \<le> self_maxLen c"
  shows "encrypt_with_tweak ciph c s tw =
    (case for_rounds
        (encrypt_round ciph c Tl Tr ((length s + 1) div 2) (length s - (length s + 1) div 2)
           (self_radix c ^ ((length s + 1) div 2)) (self_radix c ^ (length s - (length s + 1) div 2)))
        [0..<8] (take ((length s + 1) div 2) s, drop ((length s + 1) div 2) s) of
       Inl e \<Rightarrow> Inl e
     | Inr (A, B) \<Rightarrow> Inr (A @ B))"
  using assms
  by (auto simp: encrypt_with_tweak_def Let_def TWEAK_LEN_def TWEAK_LEN_NEW_def NUM_ROUNDS_def)

lemma decrypt_with_tweak_rounds:
  assumes "fromhex tw = Inr tb" "length tb = 7 \<or> length tb = 8" "split_tweak tb = Inr (Tl, Tr)"
    and "self_minLen c \<le> int (length s)" "int (length s) \<le> self_maxLen c"
  shows "decrypt_with_tweak ciph c s tw =
    (case for_rounds
        (decrypt_round ciph c Tl Tr ((length s + 1) div 2) (length s - (length s + 1) div 2)
           (self_radix c ^ ((length s + 1) div 2)) (self_radix c ^ (length s - (length s + 1) div 2)))
        (rev [0..<8]) (take ((length s + 1) div 2) s, drop ((length s + 1) div 2) s) of
       Inl e \<Rightarrow> Inl e
     | Inr (A, B) \<Rightarrow> Inr (A @ B))"
  using assms
  by (auto simp: decrypt_with_tweak_def Let_def TWEAK_LEN_def TWEAK_LEN_NEW_def NUM_ROUNDS_def)

lemma testVector0_init:
  "FF3Cipher_init (lit ''EF4359D8D580AA4F7F036D6F04FC6A94'') (lit ''D8E7920AFA330A73'') (Some 10) None
     = Inr testVector0_cipher"
proof -
  have v: "validate_radix_and_alphabet (Some 10) None = Inr (10, lit ''0123456789'')"
    by code_simp
  have k: "fromhex (lit ''EF4359D8D580AA4F7F036D6F04FC6A94'')
      = Inr [0xEF, 0x43, 0x59, 0xD8, 0xD5, 0x80, 0xAA, 0x4F,
             0x7F, 0x03, 0x6D, 0x6F, 0x04, 0xFC, 0x6A, 0x94]"
    by code_simp
  show ?thesis
    by (simp add: FF3Cipher_init_def v k minlen_and_maxlen_10 reverse_string_def testVector0_cipher_def)
qed

lemma testVector0_tweak:
  "fromhex (lit ''D8E7920AFA330A73'') = Inr [0xD8, 0xE7, 0x92, 0x0A, 0xFA, 0x33, 0x0A, 0x73]"
  by code_simp

lemma testVector0_fields:
  "self_alphabet testVector0_cipher = lit ''0123456789''"
  "self_minLen testVector0_cipher = 6" "self_maxLen testVector0_cipher = 56"
  "self_radix testVector0_cipher = 10"
  by (simp_all add: testVector0_cipher_def)

lemma round_inv_parity:
  "i mod 2 = j mod 2 \<Longrightarrow> round_inv al u v i AB = round_inv al u v j AB"
  by (simp add: round_inv_def)

lemma encrypt_round_bad:
  assumes p: "round_params c Tl Tr u v modU modV" and i: "i < 8"
    and lB: "length B = (if i mod 2 = 0 then v else u)"
    and bad: "\<not> (set A \<subseteq> set (self_alphabet c) \<and> set B \<subseteq> set (self_alphabet c))"
  shows "encrypt_round ciph c Tl Tr u v modU modV i (A, B) = Inl (ValueError SubstringNotFound)"
proof (cases "set B \<subseteq> set (self_alphabet c)")
  case False
  have "calculateP (int i) (self_alphabet c) (if i mod 2 = 0 then Tr else Tl) B
      = Inl (ValueError SubstringNotFound)"
    by (rule calculateP_bad [OF round_modulus(4) [OF p] i False])
  then show ?thesis
    unfolding encrypt_round_def Let_def prod.case by simp
next
  case True
  with bad have A: "\<not> set A \<subseteq> set (self_alphabet c)" by simp
  have "self_radix c ^ length B \<le> 2 ^ 96"
    using p lB by (simp add: round_params_def)
  then have "int (length (self_alphabet c)) ^ length B \<le> 2 ^ 96"
    using p by (simp add: round_params_def)
  from calculateP_ok [OF round_modulus(4) [OF p] i True this]
  obtain P where P: "calculateP (int i) (self_alphabet c) (if i mod 2 = 0 then Tr else Tl) B = Inr P"
    by blast
  show ?thesis
    unfolding encrypt_round_def Let_def prod.case P sum.case decode_int_notin [OF A] by simp
qed

lemma encrypt_ok:
  assumes init: "FF3Cipher_init key tweak radix alphabet = Inr c"
    and tw: "fromhex tweak = Inr tweakBytes" "length tweakBytes = 7 \<or> length tweakBytes = 8"
    and s: "set s \<subseteq> set (self_alphabet c)"
    and n: "self_minLen c \<le> int (length s)" "int (length s) \<le> self_maxLen c"
  shows "\<exists>ct. encrypt ciph c s = Inr ct \<and> length ct = length s \<and> set ct \<subseteq> set (self_alphabet c)"
proof -
  let ?u = "(length s + 1) div 2"
  let ?v = "length s - ?u"
  let ?al = "self_alphabet c"
  from split_tweak_ok [OF tw(2)] obtain Tl Tr
    where st: "split_tweak tweakBytes = Inr (Tl, Tr)" and lT: "length Tl = 4" "length Tr = 4"
    by blast
  let ?enc = "encrypt_round ciph c Tl Tr ?u ?v (self_radix c ^ ?u) (self_radix c ^ ?v)"
  have p: "round_params c Tl Tr ?u ?v (self_radix c ^ ?u) (self_radix c ^ ?v)"
    by (rule cipher_round_params [OF init lT n])
  have inv0: "round_inv ?al ?u ?v 0 (take ?u s, drop ?u s)"
    by (rule initial_round_inv [OF s])
  have t: "self_tweak c = tweak"
    by (rule init_facts(6) [OF init])
  from encrypt_rounds_inv [OF p _ _ inv0, of 8 ciph]
  obtain A B where run: "for_rounds ?enc [0..<8] (take ?u s, drop ?u s) = Inr (A, B)"
    and r8: "round_inv ?al ?u ?v 8 (A, B)"
    by auto
  have "encrypt ciph c s = Inr (A @ B)"
    unfolding encrypt_def t encrypt_with_tweak_rounds [OF tw st n] run by simp
  then show ?thesis
    using round_inv_even_state(1,2) [OF r8] by simp
qed

lemma decrypt_ok:
  assumes init: "FF3Cipher_init key tweak radix alphabet = Inr c"
    and tw: "fromhex tweak = Inr tweakBytes" "length tweakBytes = 7 \<or> length tweakBytes = 8"
    and s: "set s \<subseteq> set (self_alphabet c)"
    and n: "self_minLen c \<le> int (length s)" "int (length s) \<le> self_maxLen c"
  shows "\<exists>pt. decrypt ciph c s = Inr pt \<and> length pt = length s \<and> set pt \<subseteq> set (self_alphabet c)"
proof -
  let ?u = "(length s + 1) div 2"
  let ?v = "length s - ?u"
  let ?al = "self_alphabet c"
  from split_tweak_ok [OF tw(2)] obtain Tl Tr
    where st: "split_tweak tweakBytes = Inr (Tl, Tr)" and lT: "length Tl = 4" "length Tr = 4"
    by blast
  let ?dec = "decrypt_round ciph c Tl Tr ?u ?v (self_radix c ^ ?u) (self_radix c ^ ?v)"
  have p: "round_params c Tl Tr ?u ?v (self_radix c ^ ?u) (self_radix c ^ ?v)"
    by (rule cipher_round_params [OF init lT n])
  have "round_inv ?al ?u ?v 0 (take ?u s, drop ?u s)"
    by (rule initial_round_inv [OF s])
  then have inv8: "round_inv ?al ?u ?v 8 (take ?u s, drop ?u s)"
    by (simp add: round_inv_parity [of 8 0])
  have t: "self_tweak c = tweak"
    by (rule init_facts(6) [OF init])
  from decrypt_rounds_inv [OF p _ _ inv8, of 0 ciph]
  obtain A B where run: "for_rounds ?dec (rev [0..<8]) (take ?u s, drop ?u s) = Inr (A, B)"
    and r0: "round_inv ?al ?u ?v 0 (A, B)"
    by auto
  have "decrypt ciph c s = Inr (A @ B)"
    unfolding decrypt_def t decrypt_with_tweak_rounds [OF tw st n] run by simp
  then show ?thesis
    using round_inv_even_state(1,2) [OF r0] by simp
qed

text \<open>
  The round trip needs the characters of the alphabet to be distinct: the constructor
  returns an instance for the alphabet \<open>0123456780\<close>, and with the identity in place
  of AES that instance encrypts \<open>123456\<close> to \<open>770084\<close> and decrypts \<open>770084\<close> to
  \<open>043504\<close>.
\<close>

lemma duplicate_alphabet_breaks_round_trip:
  "FF3Cipher_init (lit ''EF4359D8D580AA4F7F036D6F04FC6A94'') (lit ''D8E7920AFA330A73'')
       None (Some (lit ''0123456780''))
     = Inr (testVector0_cipher\<lparr>self_alphabet := lit ''0123456780''\<rparr>) \<and>
   encrypt (\<lambda>key block. block) (testVector0_cipher\<lparr>self_alphabet := lit ''0123456780''\<rparr>)
      (lit ''123456'') = Inr (lit ''770084'') \<and>
   decrypt (\<lambda>key block. block) (testVector0_cipher\<lparr>self_alphabet := lit ''0123456780''\<rparr>)
      (lit ''770084'') = Inr (lit ''043504'')"
proof -
  have v: "validate_radix_and_alphabet None (Some (lit ''0123456780''))
      = Inr (10, lit ''0123456780'')"
    by code_simp
  have k: "fromhex (lit ''EF4359D8D580AA4F7F036D6F04FC6A94'')
      = Inr [0xEF, 0x43, 0x59, 0xD8, 0xD5, 0x80, 0xAA, 0x4F,
             0x7F, 0x03, 0x6D, 0x6F, 0x04, 0xFC, 0x6A, 0x94]"
    by code_simp
  have i: "FF3Cipher_init (lit ''EF4359D8D580AA4F7F036D6F04FC6A94'') (lit ''D8E7920AFA330A73'')
       None (Some (lit ''0123456780''))
     = Inr (testVector0_cipher\<lparr>self_alphabet := lit ''0123456780''\<rparr>)"
    by (simp add: FF3Cipher_init_def v k minlen_and_maxlen_10 reverse_string_def
        testVector0_cipher_def)
  have e: "encrypt (\<lambda>key block. block) (testVector0_cipher\<lparr>self_alphabet := lit ''0123456780''\<rparr>)
      (lit ''123456'') = Inr (lit ''770084'')"
    by code_simp
  have d: "decrypt (\<lambda>key block. block) (testVector0_cipher\<lparr>self_alphabet := lit ''0123456780''\<rparr>)
      (lit ''770084'') = Inr (lit ''043504'')"
    by code_simp
  from i e d show ?thesis by (intro conjI)
qed

section \<open>Encryption and decryption\<close>

text \<open>
  C1. For every cipher instance that the constructor returns for a valid
  (key, tweak, radix, alphabet) (the alphabet's characters pairwise distinct, as the
  data model requires, and the tweak the hexadecimal text of 7 or 8 bytes) and every
  string \<open>s\<close> over the alphabet with \<open>minLen \<le> |s| \<le> maxLen\<close>, \<open>encrypt(s)\<close>
  returns a string and \<open>decrypt\<close> of it returns \<open>s\<close>, whatever function from
  blocks to blocks stands for AES.
\<close>

theorem decrypt_encrypt:
  assumes init: "FF3Cipher_init key tweak radix alphabet = Inr c"
    and tw: "fromhex tweak = Inr tweakBytes" "length tweakBytes = 7 \<or> length tweakBytes = 8"
    and dist: "distinct (self_alphabet c)"
    and s: "set s \<subseteq> set (self_alphabet c)"
    and n: "self_minLen c \<le> int (length s)" "int (length s) \<le> self_maxLen c"
  shows "\<exists>ct. encrypt ciph c s = Inr ct \<and> decrypt ciph c ct = Inr s"
proof -
  let ?u = "(length s + 1) div 2"
  let ?v = "length s - ?u"
  let ?al = "self_alphabet c"
  from split_tweak_ok [OF tw(2)] obtain Tl Tr
    where st: "split_tweak tweakBytes = Inr (Tl, Tr)" and lT: "length Tl = 4" "length Tr = 4"
    by blast
  let ?enc = "encrypt_round ciph c Tl Tr ?u ?v (self_radix c ^ ?u) (self_radix c ^ ?v)"
  let ?dec = "decrypt_round ciph c Tl Tr ?u ?v (self_radix c ^ ?u) (self_radix c ^ ?v)"
  have p: "round_params c Tl Tr ?u ?v (self_radix c ^ ?u) (self_radix c ^ ?v)"
    by (rule cipher_round_params [OF init lT n])
  have inv0: "round_inv ?al ?u ?v 0 (take ?u s, drop ?u s)"
    by (rule initial_round_inv [OF s])
  from encrypt_rounds_inv [OF p _ _ inv0, of 8 ciph]
  obtain A B where run: "for_rounds ?enc [0..<8] (take ?u s, drop ?u s) = Inr (A, B)"
    and inv8: "round_inv ?al ?u ?v 8 (A, B)"
    by auto
  have t: "self_tweak c = tweak"
    by (rule init_facts(6) [OF init])
  have e: "encrypt ciph c s = Inr (A @ B)"
    unfolding encrypt_def t encrypt_with_tweak_rounds [OF tw st n] run by simp
  have ct: "length (A @ B) = length s" "take ?u (A @ B) = A" "drop ?u (A @ B) = B"
    using round_inv_even_state [OF inv8] by simp_all
  have n': "self_minLen c \<le> int (length (A @ B))" "int (length (A @ B)) \<le> self_maxLen c"
    using n ct(1) by simp_all
  have undo: "for_rounds ?dec (rev [0..<8]) (A, B) = Inr (take ?u s, drop ?u s)"
    by (rule decrypt_encrypt_rounds [OF p dist _ _ inv0 run]) simp_all
  have "decrypt ciph c (A @ B) = Inr (take ?u s @ drop ?u s)"
    unfolding decrypt_def t decrypt_with_tweak_rounds [OF tw st n'] ct undo by simp
  with e show ?thesis by simp
qed

theorem decrypt_encrypt_witness:
  "FF3Cipher_init (lit ''EF4359D8D580AA4F7F036D6F04FC6A94'') (lit ''D8E7920AFA330A73'') (Some 10) None
     = Inr testVector0_cipher \<and>
   fromhex (lit ''D8E7920AFA330A73'') = Inr [0xD8, 0xE7, 0x92, 0x0A, 0xFA, 0x33, 0x0A, 0x73] \<and>
   distinct (self_alphabet testVector0_cipher) \<and>
   set (lit ''890121234567890000'') \<subseteq> set (self_alphabet testVector0_cipher) \<and>
   self_minLen testVector0_cipher \<le> int (length (lit ''890121234567890000'')) \<and>
   int (length (lit ''890121234567890000'')) \<le> self_maxLen testVector0_cipher \<and>
   encrypt (\<lambda>key block. map (\<lambda>(k, b). k + b) (zip key block)) testVector0_cipher
       (lit ''890121234567890000'') = Inr (lit ''176350707024404495'') \<and>
   decrypt (\<lambda>key block. map (\<lambda>(k, b). k + b) (zip key block)) testVector0_cipher
       (lit ''176350707024404495'') = Inr (lit ''890121234567890000'')"
proof -
  have d: "distinct (self_alphabet testVector0_cipher)"
    and s: "set (lit ''890121234567890000'') \<subseteq> set (self_alphabet testVector0_cipher)"
    and n: "self_minLen testVector0_cipher \<le> int (length (lit ''890121234567890000''))"
      "int (length (lit ''890121234567890000'')) \<le> self_maxLen testVector0_cipher"
    by code_simp+
  have e: "encrypt (\<lambda>key block. map (\<lambda>(k, b). k + b) (zip key block)) testVector0_cipher
       (lit ''890121234567890000'') = Inr (lit ''176350707024404495'')"
    by code_simp
  from decrypt_encrypt [OF testVector0_init testVector0_tweak _ d s n,
      of "\<lambda>key block. map (\<lambda>(k, b). k + b) (zip key block)"]
  have "decrypt (\<lambda>key block. map (\<lambda>(k, b). k + b) (zip key block)) testVector0_cipher
       (lit ''176350707024404495'') = Inr (lit ''890121234567890000'')"
    unfolding e by simp
  with testVector0_init testVector0_tweak d s n e show ?thesis
    by (intro conjI)
qed

text \<open>
  C7. For every cipher instance that the constructor returns, with a tweak that is
  the hexadecimal text of 7 or 8 bytes, and every string \<open>s\<close> over the alphabet with
  \<open>minLen \<le> |s| \<le> maxLen\<close>: \<open>encrypt(s)\<close> and \<open>decrypt(s)\<close> return strings of the
  length of \<open>s\<close> whose characters all are characters of the alphabet, whatever
  function from blocks to blocks stands for AES.
\<close>

theorem encrypt_decrypt_preserve_format:
  assumes "FF3Cipher_init key tweak radix alphabet = Inr c"
    and "fromhex tweak = Inr tweakBytes" "length tweakBytes = 7 \<or> length tweakBytes = 8"
    and "set s \<subseteq> set (self_alphabet c)"
    and "self_minLen c \<le> int (length s)" "int (length s) \<le> self_maxLen c"
  shows "(\<exists>ct. encrypt ciph c s = Inr ct \<and> length ct = length s \<and> set ct \<subseteq> set (self_alphabet c))
    \<and> (\<exists>pt. decrypt ciph c s = Inr pt \<and> length pt = length s \<and> set pt \<subseteq> set (self_alphabet c))"
  using encrypt_ok [OF assms] decrypt_ok [OF assms] by (rule conjI)

theorem encrypt_decrypt_preserve_format_witness:
  "FF3Cipher_init (lit ''EF4359D8D580AA4F7F036D6F04FC6A94'') (lit ''D8E7920AFA330A73'') (Some 10) None
     = Inr testVector0_cipher \<and>
   fromhex (lit ''D8E7920AFA330A73'') = Inr [0xD8, 0xE7, 0x92, 0x0A, 0xFA, 0x33, 0x0A, 0x73] \<and>
   set (lit ''123456'') \<subseteq> set (self_alphabet testVector0_cipher) \<and>
   self_minLen testVector0_cipher \<le> int (length (lit ''123456'')) \<and>
   int (length (lit ''123456'')) \<le> self_maxLen testVector0_cipher \<and>
   (\<exists>ct. encrypt (\<lambda>key block. block) testVector0_cipher (lit ''123456'') = Inr ct
      \<and> length ct = 6 \<and> set ct \<subseteq> set (lit ''0123456789'')) \<and>
   (\<exists>pt. decrypt (\<lambda>key block. block) testVector0_cipher (lit ''123456'') = Inr pt
      \<and> length pt = 6 \<and> set pt \<subseteq> set (lit ''0123456789''))"
proof -
  have s: "set (lit ''123456'') \<subseteq> set (self_alphabet testVector0_cipher)"
    and n: "self_minLen testVector0_cipher \<le> int (length (lit ''123456''))"
      "int (length (lit ''123456'')) \<le> self_maxLen testVector0_cipher"
    by code_simp+
  have l: "length (lit ''123456'') = 6"
    by code_simp
  from encrypt_decrypt_preserve_format [OF testVector0_init testVector0_tweak _ s n,
      of "\<lambda>key block. block"]
  have "(\<exists>ct. encrypt (\<lambda>key block. block) testVector0_cipher (lit ''123456'') = Inr ct
      \<and> length ct = 6 \<and> set ct \<subseteq> set (lit ''0123456789'')) \<and>
   (\<exists>pt. decrypt (\<lambda>key block. block) testVector0_cipher (lit ''123456'') = Inr pt
      \<and> length pt = 6 \<and> set pt \<subseteq> set (lit ''0123456789''))"
    by (simp add: l testVector0_fields)
  with testVector0_init testVector0_tweak s n show ?thesis
    by (intro conjI) simp_all
qed

text \<open>
  C8. For a cipher instance whose tweak is the hexadecimal text of 7 or 8 bytes,
  \<open>encrypt(plaintext)\<close> raises if and only if the length of the plaintext is below
  \<open>minLen\<close>, or above \<open>maxLen\<close>, or some character of the plaintext is not in the
  alphabet. A length out of range raises the message-length error; a character
  outside the alphabet makes round 0 raise the error of \<open>alphabet.index\<close>. The result
  is an error or a string, never both.
\<close>

theorem encrypt_raises_iff:
  assumes init: "FF3Cipher_init key tweak radix alphabet = Inr c"
    and tw: "fromhex tweak = Inr tweakBytes" "length tweakBytes = 7 \<or> length tweakBytes = 8"
    and st: "split_tweak tweakBytes = Inr (Tl, Tr)"
  shows "(isl (encrypt ciph c plaintext) \<longleftrightarrow>
            int (length plaintext) < self_minLen c \<or> self_maxLen c < int (length plaintext)
            \<or> \<not> set plaintext \<subseteq> set (self_alphabet c))
    \<and> (int (length plaintext) < self_minLen c \<or> self_maxLen c < int (length plaintext) \<longrightarrow>
          encrypt ciph c plaintext = Inl (ValueError MessageLength))
    \<and> (self_minLen c \<le> int (length plaintext) \<and> int (length plaintext) \<le> self_maxLen c
          \<and> \<not> set plaintext \<subseteq> set (self_alphabet c) \<longrightarrow>
          (let u = (length plaintext + 1) div 2; v = length plaintext - u
           in encrypt_round ciph c Tl Tr u v (self_radix c ^ u) (self_radix c ^ v) 0
                (take u plaintext, drop u plaintext) = Inl (ValueError SubstringNotFound))
          \<and> encrypt ciph c plaintext = Inl (ValueError SubstringNotFound))"
proof -
  let ?n = "length plaintext"
  let ?u = "(?n + 1) div 2"
  let ?v = "?n - ?u"
  let ?al = "self_alphabet c"
  let ?enc = "encrypt_round ciph c Tl Tr ?u ?v (self_radix c ^ ?u) (self_radix c ^ ?v)"
  have t: "self_tweak c = tweak"
    by (rule init_facts(6) [OF init])
  have lT: "length Tl = 4" "length Tr = 4"
    using split_tweak_ok [OF tw(2)] st by auto
  have short: "encrypt ciph c plaintext = Inl (ValueError MessageLength)"
    if "int ?n < self_minLen c \<or> self_maxLen c < int ?n"
    using that tw(1) by (auto simp: encrypt_def t encrypt_with_tweak_def Let_def)
  have bad: "?enc 0 (take ?u plaintext, drop ?u plaintext) = Inl (ValueError SubstringNotFound)
      \<and> encrypt ciph c plaintext = Inl (ValueError SubstringNotFound)"
    if n: "self_minLen c \<le> int ?n" "int ?n \<le> self_maxLen c" and x: "\<not> set plaintext \<subseteq> set ?al"
  proof -
    have p: "round_params c Tl Tr ?u ?v (self_radix c ^ ?u) (self_radix c ^ ?v)"
      by (rule cipher_round_params [OF init lT n])
    have "set plaintext = set (take ?u plaintext) \<union> set (drop ?u plaintext)"
      using set_append [of "take ?u plaintext" "drop ?u plaintext"] by simp
    with x have x': "\<not> (set (take ?u plaintext) \<subseteq> set ?al \<and> set (drop ?u plaintext) \<subseteq> set ?al)"
      by auto
    have r0: "?enc 0 (take ?u plaintext, drop ?u plaintext) = Inl (ValueError SubstringNotFound)"
      by (rule encrypt_round_bad [OF p _ _ x']) simp_all
    have "[0..<8] = 0 # [1..<8]"
      by (simp add: upt_rec)
    then have "for_rounds ?enc [0..<8] (take ?u plaintext, drop ?u plaintext)
        = Inl (ValueError SubstringNotFound)"
      using r0 by simp
    then have "encrypt ciph c plaintext = Inl (ValueError SubstringNotFound)"
      unfolding encrypt_def t encrypt_with_tweak_rounds [OF tw st n] by simp
    with r0 show ?thesis by simp
  qed
  have good: "\<not> isl (encrypt ciph c plaintext)"
    if "self_minLen c \<le> int ?n" "int ?n \<le> self_maxLen c" "set plaintext \<subseteq> set ?al"
    using encrypt_ok [OF init tw that(3,1,2), of ciph] by auto
  have c1: "isl (encrypt ciph c plaintext) \<longleftrightarrow>
      int ?n < self_minLen c \<or> self_maxLen c < int ?n \<or> \<not> set plaintext \<subseteq> set ?al"
  proof (cases "int ?n < self_minLen c \<or> self_maxLen c < int ?n")
    case True
    then have "isl (encrypt ciph c plaintext)" using short by simp
    with True show ?thesis by blast
  next
    case range: False
    show ?thesis
    proof (cases "set plaintext \<subseteq> set ?al")
      case True
      then show ?thesis using good range by simp
    next
      case False
      then have "encrypt ciph c plaintext = Inl (ValueError SubstringNotFound)"
        using bad range by simp
      then show ?thesis using False by simp
    qed
  qed
  have c2: "int ?n < self_minLen c \<or> self_maxLen c < int ?n \<longrightarrow>
      encrypt ciph c plaintext = Inl (ValueError MessageLength)"
    using short by blast
  have c3: "self_minLen c \<le> int ?n \<and> int ?n \<le> self_maxLen c \<and> \<not> set plaintext \<subseteq> set ?al \<longrightarrow>
      (let u = (?n + 1) div 2; v = ?n - u
       in encrypt_round ciph c Tl Tr u v (self_radix c ^ u) (self_radix c ^ v) 0
            (take u plaintext, drop u plaintext) = Inl (ValueError SubstringNotFound))
      \<and> encrypt ciph c plaintext = Inl (ValueError SubstringNotFound)"
    unfolding Let_def using bad by blast
  from c1 c2 c3 show ?thesis by (intro conjI)
qed

theorem encrypt_raises_iff_witness:
  "FF3Cipher_init (lit ''EF4359D8D580AA4F7F036D6F04FC6A94'') (lit ''D8E7920AFA330A73'') (Some 10) None
     = Inr testVector0_cipher \<and>
   fromhex (lit ''D8E7920AFA330A73'') = Inr [0xD8, 0xE7, 0x92, 0x0A, 0xFA, 0x33, 0x0A, 0x73] \<and>
   split_tweak [0xD8, 0xE7, 0x92, 0x0A, 0xFA, 0x33, 0x0A, 0x73]
     = Inr ([0xD8, 0xE7, 0x92, 0x0A], [0xFA, 0x33, 0x0A, 0x73]) \<and>
   self_minLen testVector0_cipher \<le> int (length (lit ''x90121234567890000'')) \<and>
   int (length (lit ''x90121234567890000'')) \<le> self_maxLen testVector0_cipher \<and>
   \<not> set (lit ''x90121234567890000'') \<subseteq> set (self_alphabet testVector0_cipher) \<and>
   isl (encrypt (\<lambda>key block. block) testVector0_cipher (lit ''x90121234567890000'')) \<and>
   encrypt (\<lambda>key block. block) testVector0_cipher (lit ''x90121234567890000'')
     = Inl (ValueError SubstringNotFound)"
proof -
  have st: "split_tweak [0xD8, 0xE7, 0x92, 0x0A, 0xFA, 0x33, 0x0A, 0x73]
     = Inr ([0xD8, 0xE7, 0x92, 0x0A], [0xFA, 0x33, 0x0A, 0x73])"
    by code_simp
  have n: "self_minLen testVector0_cipher \<le> int (length (lit ''x90121234567890000''))"
      "int (length (lit ''x90121234567890000'')) \<le> self_maxLen testVector0_cipher"
    and x: "\<not> set (lit ''x90121234567890000'') \<subseteq> set (self_alphabet testVector0_cipher)"
    by code_simp+
  from encrypt_raises_iff [OF testVector0_init testVector0_tweak _ st,
      of "\<lambda>key block. block" "lit ''x90121234567890000''"] n x
  have "isl (encrypt (\<lambda>key block. block) testVector0_cipher (lit ''x90121234567890000''))"
    and "encrypt (\<lambda>key block. block) testVector0_cipher (lit ''x90121234567890000'')
     = Inl (ValueError SubstringNotFound)"
    by simp_all
  with testVector0_init testVector0_tweak st n x show ?thesis
    by (intro conjI)
qed

text \<open>
  C10. The constructor stores the tweak as given and succeeds for every tweak once it
  succeeds for one. A tweak that is not hexadecimal text makes \<open>encrypt\<close> and
  \<open>decrypt\<close> raise the error of \<open>bytes.fromhex\<close>; one of a length other than 7 or
  8 bytes makes them raise the tweak-length error, after the check of the message
  length.
\<close>

theorem tweak_checked_at_use:
  assumes init: "FF3Cipher_init key tweak radix alphabet = Inr c"
  shows "self_tweak c = tweak
    \<and> (\<forall>tweak'. FF3Cipher_init key tweak' radix alphabet = Inr (c\<lparr>self_tweak := tweak'\<rparr>))
    \<and> (\<forall>e. fromhex tweak = Inl e \<longrightarrow>
          encrypt ciph c s = Inl e \<and> decrypt ciph c s = Inl e)
    \<and> (\<forall>tweakBytes. fromhex tweak = Inr tweakBytes \<and> length tweakBytes \<noteq> 7 \<and> length tweakBytes \<noteq> 8 \<longrightarrow>
          encrypt ciph c s =
            (if int (length s) < self_minLen c \<or> self_maxLen c < int (length s)
             then Inl (ValueError MessageLength) else Inl (ValueError TweakLength))
          \<and> decrypt ciph c s =
            (if int (length s) < self_minLen c \<or> self_maxLen c < int (length s)
             then Inl (ValueError MessageLength) else Inl (ValueError TweakLength)))"
proof -
  have t: "self_tweak c = tweak"
    by (rule init_facts(6) [OF init])
  have "\<forall>tweak'. FF3Cipher_init key tweak' radix alphabet = Inr (c\<lparr>self_tweak := tweak'\<rparr>)"
    using init_tweak_independent [OF init] by blast
  moreover have "encrypt ciph c s = Inl e \<and> decrypt ciph c s = Inl e" if "fromhex tweak = Inl e" for e
    using that
    by (simp add: encrypt_def decrypt_def t encrypt_with_tweak_def decrypt_with_tweak_def)
  moreover have "encrypt ciph c s =
            (if int (length s) < self_minLen c \<or> self_maxLen c < int (length s)
             then Inl (ValueError MessageLength) else Inl (ValueError TweakLength))
          \<and> decrypt ciph c s =
            (if int (length s) < self_minLen c \<or> self_maxLen c < int (length s)
             then Inl (ValueError MessageLength) else Inl (ValueError TweakLength))"
    if "fromhex tweak = Inr tb" "length tb \<noteq> 7" "length tb \<noteq> 8" for tb
    using that
    by (auto simp: encrypt_def decrypt_def t encrypt_with_tweak_def decrypt_with_tweak_def
        Let_def TWEAK_LEN_def TWEAK_LEN_NEW_def)
  ultimately show ?thesis
    using t by blast
qed

theorem tweak_checked_at_use_witness:
  "FF3Cipher_init (lit ''EF4359D8D580AA4F7F036D6F04FC6A94'') (lit ''D8E7'') (Some 10) None
     = Inr (testVector0_cipher\<lparr>self_tweak := lit ''D8E7''\<rparr>) \<and>
   FF3Cipher_init (lit ''EF4359D8D580AA4F7F036D6F04FC6A94'') (lit ''tweak'') (Some 10) None
     = Inr (testVector0_cipher\<lparr>self_tweak := lit ''tweak''\<rparr>) \<and>
   fromhex (lit ''D8E7'') = Inr [0xD8, 0xE7] \<and>
   encrypt (\<lambda>key block. block) (testVector0_cipher\<lparr>self_tweak := lit ''D8E7''\<rparr>) (lit ''89012'')
     = Inl (ValueError MessageLength) \<and>
   encrypt (\<lambda>key block. block) (testVector0_cipher\<lparr>self_tweak := lit ''D8E7''\<rparr>) (lit ''890121'')
     = Inl (ValueError TweakLength) \<and>
   decrypt (\<lambda>key block. block) (testVector0_cipher\<lparr>self_tweak := lit ''D8E7''\<rparr>) (lit ''890121'')
     = Inl (ValueError TweakLength)"
proof -
  have i: "FF3Cipher_init (lit ''EF4359D8D580AA4F7F036D6F04FC6A94'') (lit ''D8E7'') (Some 10) None
     = Inr (testVector0_cipher\<lparr>self_tweak := lit ''D8E7''\<rparr>)"
    by (rule init_tweak_independent [OF testVector0_init])
  have f: "fromhex (lit ''D8E7'') = Inr [0xD8, 0xE7]"
    by code_simp
  have l: "length (lit ''89012'') = 5" "length (lit ''890121'') = 6"
    by code_simp+
  note w = tweak_checked_at_use [OF i, of "\<lambda>key block. block"]
  have "FF3Cipher_init (lit ''EF4359D8D580AA4F7F036D6F04FC6A94'') (lit ''tweak'') (Some 10) None
     = Inr (testVector0_cipher\<lparr>self_tweak := lit ''tweak''\<rparr>)"
    using w [of "lit ''89012''"] by simp
  moreover have "encrypt (\<lambda>key block. block) (testVector0_cipher\<lparr>self_tweak := lit ''D8E7''\<rparr>) (lit ''89012'')
     = Inl (ValueError MessageLength)"
    using w [of "lit ''89012''"] f l by (simp add: testVector0_cipher_def)
  moreover have "encrypt (\<lambda>key block. block) (testVector0_cipher\<lparr>self_tweak := lit ''D8E7''\<rparr>) (lit ''890121'')
     = Inl (ValueError TweakLength)"
    "decrypt (\<lambda>key block. block) (testVector0_cipher\<lparr>self_tweak := lit ''D8E7''\<rparr>) (lit ''890121'')
     = Inl (ValueError TweakLength)"
    using w [of "lit ''890121''"] f l by (simp_all add: testVector0_cipher_def)
  ultimately show ?thesis
    using i f by (intro conjI)
qed

section \<open>The codec's digit order\<close>

text \<open>
  C2 (as amended). For every string whose characters all occur in the alphabet,
  \<open>decode_int\<close> returns the value of the string read least-significant digit first:
  the sum over the positions \<open>k\<close> of \<open>index(s[k]) * |alphabet|^k\<close>.
\<close>

theorem decode_int_least_significant_first:
  assumes "set s \<subseteq> set alphabet"
  shows "decode_int s alphabet =
    Inr (\<Sum>k<length s. int (first_pos alphabet (s ! k)) * int (length alphabet) ^ k)"
  using decode_int_in [OF assms] by (simp add: horner_sum_eq_sum atLeast0LessThan)

theorem decode_int_least_significant_first_witness:
  "set (lit ''567890000'') \<subseteq> set (lit ''0123456789'') \<and>
   decode_int (lit ''567890000'') (lit ''0123456789'') = Inr 98765"
proof -
  have sub: "set (lit ''567890000'') \<subseteq> set (lit ''0123456789'')"
    by code_simp
  have val: "(\<Sum>k<length (lit ''567890000'').
      int (first_pos (lit ''0123456789'') (lit ''567890000'' ! k)) * int (length (lit ''0123456789'')) ^ k) = 98765"
    by code_simp
  show ?thesis
    using sub decode_int_least_significant_first [OF sub] val by simp
qed

text \<open>
  C2 as stated (most significant digit first, exponent \<open>|s| - 1 - k\<close>) fails:
  \<open>decode_int("10", "0123456789")\<close> is 1, and the most-significant-first value is 10.
\<close>

theorem decode_int_most_significant_first_counterexample:
  "set (lit ''10'') \<subseteq> set (lit ''0123456789'') \<and>
   decode_int (lit ''10'') (lit ''0123456789'') = Inr 1 \<and>
   (\<Sum>k<length (lit ''10''). int (first_pos (lit ''0123456789'') (lit ''10'' ! k))
        * int (length (lit ''0123456789'')) ^ (length (lit ''10'') - 1 - k)) = 10"
  by code_simp

text \<open>
  For an alphabet of pairwise distinct characters decoding inverts the reversed
  encoder, whatever the length: both functions put the least significant digit first.
\<close>

lemma decode_int_inverts_encode_int_r:
  assumes "2 \<le> radix" "radix \<le> 65536" "int (length alphabet) = radix" "distinct alphabet"
    and "0 \<le> n"
  shows "decode_encoded n radix length' alphabet = Inr n"
  using decode_encode [OF assms, of length'] by (auto simp: decode_encoded_def)



section \<open>The round block of the first test vector\<close>

text \<open>
  C6. With round index 0, the alphabet \<open>0123456789\<close>, \<open>B = 567890000\<close> and
  \<open>W = FA 33 0A 73\<close>, \<open>calculateP\<close> returns the 16 bytes
  \<open>FA 33 0A 73 00 00 00 00 00 00 00 00 00 01 81 CD\<close>.
\<close>

theorem calculateP_round_block:
  "calculateP 0 (lit ''0123456789'') [0xFA, 0x33, 0x0A, 0x73] (lit ''567890000'')
     = Inr [0xFA, 0x33, 0x0A, 0x73, 0, 0, 0, 0, 0, 0, 0, 0, 0, 0x01, 0x81, 0xCD]"
  by code_simp

section \<open>Where the code departs from its messages and comments\<close>

text \<open>
  C3 (the code at the failing input). \<open>validate_radix_and_alphabet\<close> never raises
  the duplicate-characters error: the check compares the length of the alphabet with
  the length of \<open>str(alphabet)\<close>, which is the alphabet itself. The alphabet \<open>aab\<close>
  passes, and the constructor returns a cipher instance for it.
\<close>

theorem duplicate_alphabet_accepted:
  "validate_radix_and_alphabet radix alphabet \<noteq> Inl (ValueError DuplicateCharacters) \<and>
   validate_radix_and_alphabet None (Some (lit ''aab'')) = Inr (3, lit ''aab'') \<and>
   FF3Cipher_init (lit ''EF4359D8D580AA4F7F036D6F04FC6A94'') (lit ''D8E7920AFA330A73'')
       None (Some (lit ''aab''))
     = Inr \<lparr>self_tweak = lit ''D8E7920AFA330A73'', self_radix = 3, self_alphabet = lit ''aab'',
            self_minLen = 13, self_maxLen = 120,
            self_aesCipher = [0x94, 0x6A, 0xFC, 0x04, 0x6F, 0x6D, 0x03, 0x7F,
                              0x4F, 0xAA, 0x80, 0xD5, 0xD8, 0x59, 0x43, 0xEF]\<rparr>"
proof -
  have v: "validate_radix_and_alphabet None (Some (lit ''aab'')) = Inr (3, lit ''aab'')"
    by code_simp
  have k: "fromhex (lit ''EF4359D8D580AA4F7F036D6F04FC6A94'')
      = Inr [0xEF, 0x43, 0x59, 0xD8, 0xD5, 0x80, 0xAA, 0x4F,
             0x7F, 0x03, 0x6D, 0x6F, 0x04, 0xFC, 0x6A, 0x94]"
    by code_simp
  show ?thesis
    by (simp add: FF3Cipher_init_def v k minlen_and_maxlen_3 reverse_string_def
        validate_never_duplicate)
qed

text \<open>
  C4 (the code at the failing input). For the 7-byte tweak \<open>CE 3E BD 69 45 49 84\<close>
  the code's right half is \<open>04 54 98 40\<close>: the three bytes \<open>tweak[4..6]\<close> shifted
  left by four bits, and not \<open>45 49 84 90\<close>.
\<close>

theorem split_tweak_56_bit:
  "fromhex (lit ''CE3EBD69454984'') = Inr [0xCE, 0x3E, 0xBD, 0x69, 0x45, 0x49, 0x84] \<and>
   split_tweak [0xCE, 0x3E, 0xBD, 0x69, 0x45, 0x49, 0x84]
     = Inr ([0xCE, 0x3E, 0xBD, 0x60], [0x04, 0x54, 0x98, 0x40])"
  by code_simp

section \<open>The bounds on the message length\<close>

text \<open>
  C9 (as amended). For every radix in \<open>{2, 3, 10, 16, 26, 36, 62}\<close>,
  \<open>minlen_and_maxlen\<close> returns \<open>(minLen, maxLen)\<close> with
  \<open>minLen = ceil(log_radix 1000000)\<close>, \<open>maxLen = 2 * floor(96 / log2 radix)\<close>,
  \<open>radix^minLen \<ge> 1000000\<close> and \<open>radix^(maxLen / 2) \<le> 2^96\<close>.
\<close>

theorem minlen_and_maxlen_validator:
  assumes "radix \<in> {2, 3, 10, 16, 26, 36, 62}"
  shows "case minlen_and_maxlen radix of (minLen, maxLen) \<Rightarrow>
      minLen = \<lceil>log (real_of_int radix) 1000000\<rceil>
      \<and> maxLen = 2 * \<lfloor>96 / log 2 (real_of_int radix)\<rfloor>
      \<and> 0 \<le> minLen \<and> 0 \<le> maxLen
      \<and> 1000000 \<le> radix ^ nat minLen
      \<and> radix ^ nat (maxLen div 2) \<le> 2 ^ 96"
proof -
  from assms have r: "2 \<le> radix" by auto
  have "fst (minlen_and_maxlen radix) = \<lceil>log (real_of_int radix) 1000000\<rceil>"
    and "snd (minlen_and_maxlen radix) = 2 * \<lfloor>96 / log 2 (real_of_int radix)\<rfloor>"
    by (simp_all add: minlen_and_maxlen_def DOMAIN_MIN_def)
  then show ?thesis
    using minlen_and_maxlen_bounds [OF r]
    by (simp add: case_prod_unfold DOMAIN_MIN_def)
qed

theorem minlen_and_maxlen_validator_witness:
  "(10::int) \<in> {2, 3, 10, 16, 26, 36, 62} \<and> minlen_and_maxlen 10 = (6, 56) \<and>
   \<lceil>log 10 1000000 :: real\<rceil> = 6 \<and> 2 * \<lfloor>96 / log 2 10 :: real\<rfloor> = 56 \<and>
   (1000000::int) \<le> 10 ^ 6 \<and> (10::int) ^ 28 \<le> 2 ^ 96"
  using minlen_and_maxlen_validator [of 10] by (simp add: minlen_and_maxlen_10)

text \<open>
  C9 as stated fails in its last bound: for radix 2 the lengths are
  \<open>(20, 192)\<close>, and \<open>2^192\<close> exceeds \<open>2^96 * 2\<close>.
\<close>

theorem maxlen_bound_counterexample:
  "minlen_and_maxlen 2 = (20, 192) \<and> \<not> ((2::int) ^ 192 \<le> 2 ^ 96 * 2)"
  by (simp add: minlen_and_maxlen_2)

end
